theory Spec2Isabelle
  imports Main
begin

section \<open>Data model of the hook runtime\<close>

text \<open>
  The repository keeps one \<^verbatim>\<open>FunctionalState\<close> singleton (functional.ts) and a set of
  hooks (hooks.ts, context.ts) that read and write it. The embedding passes that singleton
  explicitly: every operation takes the state and returns a result together with the new
  state. A JavaScript exception is the left injection of the result.

  Objects are identified by the number they received when they were created: signal
  objects (cells), symbols and the hosts made by a default parameter each have their own
  counter in the state.

  debug.ts is left out: \<^verbatim>\<open>debug\<close> writes to the console, \<^verbatim>\<open>trackSignal\<close> and
  \<^verbatim>\<open>registerDebugFinalizers\<close> register objects with finalization registries, whose
  callbacks run only for a host that has become unreachable.
\<close>

text \<open>
  A host is an object. It is either an object of user code, which user code passes to
  \<^verbatim>\<open>withFunctional\<close> (\<open>Given n\<close>, the object number \<open>n\<close> of user code), or an object that
  the default parameter \<^verbatim>\<open>host = {}\<close> of \<^verbatim>\<open>withFunctional\<close> created (\<open>Default k\<close>, the
  \<open>k\<close>-th such object). An object literal evaluates to an object that is none of the
  objects that exist, so no \<open>Default\<close> host is a \<open>Given\<close> host, and each \<open>Default\<close> host
  is numbered by the counter \<open>nextHost\<close> of the state, which then advances.
\<close>

datatype host = Given nat | Default nat

type_synonym cell = nat
type_synonym ctor = nat

datatype jsval = Undefined | Null | Num int | Str string

datatype error = Error string

datatype symbol = Symbol nat string

text \<open>
  \<^verbatim>\<open>indexMap.get(host)!\<close> is a number or, for a host without cursor, \<^verbatim>\<open>undefined\<close>;
  \<^verbatim>\<open>undefined + 1\<close> is \<^verbatim>\<open>NaN\<close>. A slot of the store array is addressed by the property
  name the cursor converts to.
\<close>

datatype jsindex = Idx nat | NaN

datatype slotkey = At nat | AtUndefined | AtNaN

fun slot_of :: "jsindex option \<Rightarrow> slotkey" where
  "slot_of None = AtUndefined"
| "slot_of (Some (Idx n)) = At n"
| "slot_of (Some NaN) = AtNaN"

fun plus_one :: "jsindex option \<Rightarrow> jsindex" where
  "plus_one None = NaN"
| "plus_one (Some (Idx n)) = Idx (n + 1)"
| "plus_one (Some NaN) = NaN"

text \<open>
  The reactive primitive is an external collaborator (signal-polyfill). Of it the model
  keeps what the repository uses: \<^verbatim>\<open>new Signal.State(v)\<close> and \<^verbatim>\<open>new Signal.Computed(f)\<close>
  create a new object, \<^verbatim>\<open>get\<close> and \<^verbatim>\<open>set\<close> read and write a state object. Each object
  remembers the constructor that built it. The function wrapped by a computed signal is
  user code of type \<open>'m\<close> that the repository never calls.
\<close>

datatype 'm computation = Thunk 'm | Constantly 'm

datatype 'm sigobj = StateObj ctor jsval | ComputedObj ctor "'m computation"

text \<open>
  User callbacks run on the user's own world \<open>'w\<close> (the variables the closures capture):
  they read and write that world only, they call no hook and no \<^verbatim>\<open>withFunctional\<close> and
  write no signal. An effect function returns \<^verbatim>\<open>void\<close> or a cleanup callable, or raises.
\<close>

type_synonym 'w callback = "'w \<Rightarrow> (error + unit) \<times> 'w"

type_synonym 'w effectfn = "'w \<Rightarrow> (error + 'w callback option) \<times> 'w"

text \<open>
  An effect record \<^verbatim>\<open>{ run, cleanup? }\<close>. The closure \<^verbatim>\<open>run\<close> captures the effect function
  and the array the record was pushed on; the record stores the function, and the array is
  the one the record is in (see \<open>run\<close> below).
\<close>

record 'w effect =
  effect_function :: "'w effectfn"
  cleanup :: "'w callback option"

record ContextKey =
  key_id :: symbol
  key_default :: "cell option"

text \<open>
  The state: the static field \<^verbatim>\<open>manualSignalCtor\<close>, the binding \<^verbatim>\<open>globalThis.Signal\<close>, the
  four maps and the current host of the singleton, and the environment: the signal
  objects that exist, the three counters, the pending microtasks and the user's world.
  A store is the array \<^verbatim>\<open>Signal.State[]\<close> with its holes, a frame a \<^verbatim>\<open>Map\<close>.
\<close>

record ('w, 'm) fstate =
  manualSignalCtor :: "ctor option"
  globalSignal :: "ctor option"
  storeMap :: "host \<rightharpoonup> (slotkey \<rightharpoonup> cell)"
  currentRenderElement :: "host option"
  contextStackMap :: "host \<rightharpoonup> (symbol \<rightharpoonup> cell) list"
  effectMap :: "host \<rightharpoonup> 'w effect list"
  indexMap :: "host \<rightharpoonup> jsindex"
  signals :: "cell \<rightharpoonup> 'm sigobj"
  nextCell :: nat
  nextHost :: nat
  nextSymbol :: nat
  microtasks :: "host list"
  world :: 'w

type_synonym ('w, 'm, 'a) op = "('w, 'm) fstate \<Rightarrow> (error + 'a) \<times> ('w, 'm) fstate"

section \<open>utils.ts and functional.ts\<close>

definition guard :: "string \<Rightarrow> 'a option \<Rightarrow> error + 'a" where
  "guard message item = (case item of None \<Rightarrow> Inl (Error message) | Some x \<Rightarrow> Inr x)"

definition setSignalConstructor :: "ctor \<Rightarrow> ('w, 'm) fstate \<Rightarrow> ('w, 'm) fstate" where
  "setSignalConstructor c s = s\<lparr>manualSignalCtor := Some c\<rparr>"

text \<open>The message of the setup error goes on with the two ways to register a constructor.\<close>

definition signalSetupError :: error where
  "signalSetupError = Error ''[gracile] No Signal constructor found.''"

definition Signal :: "('w, 'm) fstate \<Rightarrow> error + ctor" where
  "Signal s =
     (case manualSignalCtor s of
        Some c \<Rightarrow> Inr c
      | None \<Rightarrow>
          (case globalSignal s of
             Some c \<Rightarrow> Inr c
           | None \<Rightarrow> Inl signalSetupError))"

definition alloc :: "'m sigobj \<Rightarrow> ('w, 'm) fstate \<Rightarrow> cell \<times> ('w, 'm) fstate" where
  "alloc obj s =
     (nextCell s, s\<lparr>signals := (signals s)(nextCell s \<mapsto> obj), nextCell := nextCell s + 1\<rparr>)"

definition newState :: "jsval \<Rightarrow> ('w, 'm, cell) op" where
  "newState v s =
     (case Signal s of
        Inl e \<Rightarrow> (Inl e, s)
      | Inr c \<Rightarrow> (case alloc (StateObj c v) s of (a, s') \<Rightarrow> (Inr a, s')))"

definition newComputed :: "'m computation \<Rightarrow> ('w, 'm, cell) op" where
  "newComputed f s =
     (case Signal s of
        Inl e \<Rightarrow> (Inl e, s)
      | Inr c \<Rightarrow> (case alloc (ComputedObj c f) s of (a, s') \<Rightarrow> (Inr a, s')))"

definition sig_get :: "cell \<Rightarrow> ('w, 'm) fstate \<Rightarrow> jsval option" where
  "sig_get a s = (case signals s a of Some (StateObj c v) \<Rightarrow> Some v | _ \<Rightarrow> None)"

definition sig_set :: "cell \<Rightarrow> jsval \<Rightarrow> ('w, 'm) fstate \<Rightarrow> ('w, 'm) fstate" where
  "sig_set a v s =
     (case signals s a of
        Some (StateObj c old) \<Rightarrow> s\<lparr>signals := (signals s)(a \<mapsto> StateObj c v)\<rparr>
      | _ \<Rightarrow> s)"

text \<open>The default parameter \<^verbatim>\<open>host: object = {}\<close>: a new object, unlike every earlier one.\<close>

definition newHost :: "('w, 'm) fstate \<Rightarrow> host \<times> ('w, 'm) fstate" where
  "newHost s = (Default (nextHost s), s\<lparr>nextHost := nextHost s + 1\<rparr>)"

text \<open>
  \<^verbatim>\<open>withFunctional(renderFunction, host = {})\<close>. The host argument, when there is one, is
  the number of an object of user code. The microtask that \<^verbatim>\<open>withFunctional\<close> queues
  captures only the host, so the microtask queue is a list of hosts; \<open>flush\<close> below is
  the body of that microtask. \<^verbatim>\<open>registerDebugFinalizers\<close> only registers the host with a
  finalization registry and is left out.
\<close>

definition defaultHost :: "nat option \<Rightarrow> ('w, 'm) fstate \<Rightarrow> host \<times> ('w, 'm) fstate" where
  "defaultHost hostArg s = (case hostArg of Some n \<Rightarrow> (Given n, s) | None \<Rightarrow> newHost s)"

definition withFunctional ::
  "('w, 'm, 'a) op \<Rightarrow> nat option \<Rightarrow> ('w, 'm, 'a) op" where
  "withFunctional renderFunction hostArg s =
     (case defaultHost hostArg s of
        (host, s0) \<Rightarrow>
          let previous = currentRenderElement s0;
              s1 = s0\<lparr>currentRenderElement := Some host\<rparr>;
              s2 = s1\<lparr>indexMap := (indexMap s1)(host \<mapsto> Idx 0)\<rparr>;
              s3 = s2\<lparr>contextStackMap := (contextStackMap s2)(host \<mapsto> [])\<rparr>
          in (case renderFunction s3 of
                (Inr result, s4) \<Rightarrow>
                  (Inr result,
                   s4\<lparr>microtasks := microtasks s4 @ [host],
                      currentRenderElement := previous\<rparr>)
              | (Inl e, s4) \<Rightarrow> (Inl e, s4\<lparr>currentRenderElement := previous\<rparr>)))"

definition WithFunctional ::
  "nat option \<Rightarrow> ('w, 'm, 'a) op \<Rightarrow> ('w, 'm, 'a) op" where
  "WithFunctional host children = withFunctional children host"

text \<open>
  \<^verbatim>\<open>effect?.run()\<close> for the record at position \<open>i\<close> of the array registered for \<open>host\<close>
  (nothing is called where there is no record): call the effect function, then
  \<^verbatim>\<open>previous = effects.at(-1)\<close> and, when a callable came back,
  \<^verbatim>\<open>previous.cleanup = cleanup\<close>. The array \<^verbatim>\<open>effects\<close> that the closure captured is the
  array the record was pushed on, and a record is only ever run by the flush that iterates
  that array, found under \<open>host\<close>.
\<close>

definition run :: "nat \<Rightarrow> host \<Rightarrow> ('w, 'm, unit) op" where
  "run i host s =
     (case effectMap s host of
        None \<Rightarrow> (Inr (), s)
      | Some effects \<Rightarrow>
          if length effects \<le> i then (Inr (), s)
          else
            (case effect_function (effects ! i) (world s) of
               (Inl e, w) \<Rightarrow> (Inl e, s\<lparr>world := w\<rparr>)
             | (Inr None, w) \<Rightarrow> (Inr (), s\<lparr>world := w\<rparr>)
             | (Inr (Some c), w) \<Rightarrow>
                 (Inr (),
                  s\<lparr>world := w,
                    effectMap := (effectMap s)(host \<mapsto>
                      effects[length effects - 1 :=
                        (effects ! (length effects - 1))\<lparr>cleanup := Some c\<rparr>])\<rparr>)))"

text \<open>\<^verbatim>\<open>for (const effect of effects) effect?.run()\<close>: stops at the first run that raises.\<close>

fun runEach :: "nat list \<Rightarrow> host \<Rightarrow> ('w, 'm, unit) op" where
  "runEach [] host s = (Inr (), s)"
| "runEach (i # is) host s =
     (case run i host s of
        (Inl e, s') \<Rightarrow> (Inl e, s')
      | (Inr u, s') \<Rightarrow> runEach is host s')"

text \<open>The microtask queued by \<open>withFunctional\<close>.\<close>

definition flush :: "host \<Rightarrow> ('w, 'm, unit) op" where
  "flush host s =
     (case effectMap s host of
        None \<Rightarrow> (Inr (), s)
      | Some effects \<Rightarrow>
          (case runEach [0..<length effects] host s of
             (Inl e, s') \<Rightarrow> (Inl e, s')
           | (Inr u, s') \<Rightarrow> (Inr (), s'\<lparr>effectMap := (effectMap s')(host := None)\<rparr>)))"

text \<open>
  The microtask checkpoint of the event loop, reached when the synchronous code has
  returned: every queued microtask runs, in queue order; as in a browser, an exception of
  one is reported and the next one still runs. The reported exceptions are returned.
\<close>

fun drain :: "host list \<Rightarrow> ('w, 'm) fstate \<Rightarrow> error list \<times> ('w, 'm) fstate" where
  "drain [] s = ([], s)"
| "drain (h # hs) s =
     (case flush h s of
        (Inl e, s') \<Rightarrow> (case drain hs s' of (es, s'') \<Rightarrow> (e # es, s''))
      | (Inr u, s') \<Rightarrow> drain hs s')"

definition checkpoint :: "('w, 'm) fstate \<Rightarrow> error list \<times> ('w, 'm) fstate" where
  "checkpoint s = drain (microtasks s) (s\<lparr>microtasks := []\<rparr>)"

section \<open>hooks.ts\<close>

text \<open>
  \<^verbatim>\<open>useState\<close> returns the pair of the signal and a setter that calls \<^verbatim>\<open>sig.set\<close>; the
  model returns the signal, and \<open>sig_set\<close> on it is the setter.
\<close>

definition useState :: "jsval \<Rightarrow> ('w, 'm, cell) op" where
  "useState initial s =
     (case guard ''useState() called outside render'' (currentRenderElement s) of
        Inl e \<Rightarrow> (Inl e, s)
      | Inr host \<Rightarrow>
          let s1 = (case storeMap s host of
                      None \<Rightarrow> s\<lparr>storeMap := (storeMap s)(host \<mapsto> Map.empty)\<rparr>
                    | Some st \<Rightarrow> s);
              store = (case storeMap s1 host of None \<Rightarrow> Map.empty | Some st \<Rightarrow> st);
              index = indexMap s1 host;
              s2 = s1\<lparr>indexMap := (indexMap s1)(host \<mapsto> plus_one index)\<rparr>
          in (case store (slot_of index) of
                Some sig \<Rightarrow> (Inr sig, s2)
              | None \<Rightarrow>
                  (case newState initial s2 of
                     (Inl e, s3) \<Rightarrow> (Inl e, s3)
                   | (Inr sig, s3) \<Rightarrow>
                       (Inr sig,
                        s3\<lparr>storeMap := (storeMap s3)(host \<mapsto>
                             store(slot_of index \<mapsto> sig))\<rparr>))))"

definition useCallback :: "'m \<Rightarrow> ('w, 'm, cell) op" where
  "useCallback f s =
     (case guard ''useCallback() called outside render'' (currentRenderElement s) of
        Inl e \<Rightarrow> (Inl e, s)
      | Inr host \<Rightarrow> newComputed (Constantly f) s)"

definition useMemo :: "'m \<Rightarrow> ('w, 'm, cell) op" where
  "useMemo f s =
     (case guard ''useMemo() called outside render'' (currentRenderElement s) of
        Inl e \<Rightarrow> (Inl e, s)
      | Inr host \<Rightarrow> newComputed (Thunk f) s)"

text \<open>
  \<^verbatim>\<open>useReducer\<close> returns the state signal and \<^verbatim>\<open>dispatch\<close>; the model returns the signal,
  and \<open>dispatch\<close> takes the reducer and the signal that the closure captures.
\<close>

definition useReducer :: "(jsval \<Rightarrow> 'act \<Rightarrow> jsval) \<Rightarrow> jsval \<Rightarrow> ('w, 'm, cell) op" where
  "useReducer reducer initial s = useState initial s"

definition dispatch ::
  "(jsval \<Rightarrow> 'act \<Rightarrow> jsval) \<Rightarrow> cell \<Rightarrow> 'act \<Rightarrow> ('w, 'm) fstate \<Rightarrow> ('w, 'm) fstate" where
  "dispatch reducer state action s =
     (case sig_get state s of
        Some v \<Rightarrow> sig_set state (reducer v action) s
      | None \<Rightarrow> s)"

definition useEffect :: "'w effectfn \<Rightarrow> ('w, 'm, unit) op" where
  "useEffect f s =
     (case guard ''useEffect() called outside render'' (currentRenderElement s) of
        Inl e \<Rightarrow> (Inl e, s)
      | Inr host \<Rightarrow>
          let effects = (case effectMap s host of None \<Rightarrow> [] | Some es \<Rightarrow> es)
          in (Inr (),
              s\<lparr>effectMap := (effectMap s)(host \<mapsto>
                   effects @ [\<lparr>effect_function = f, cleanup = None\<rparr>])\<rparr>))"

definition onMount :: "'w callback \<Rightarrow> ('w, 'm, unit) op" where
  "onMount f =
     useEffect (\<lambda>w. case f w of (Inl e, w') \<Rightarrow> (Inl e, w') | (Inr u, w') \<Rightarrow> (Inr None, w'))"

definition onCleanup :: "'w callback \<Rightarrow> ('w, 'm, unit) op" where
  "onCleanup f = useEffect (\<lambda>w. (Inr (Some f), w))"

section \<open>context.ts\<close>

definition provideContext :: "ContextKey \<Rightarrow> cell \<Rightarrow> ('w, 'm, unit) op" where
  "provideContext key v s =
     (case guard ''provideContext() called outside render'' (currentRenderElement s) of
        Inl e \<Rightarrow> (Inl e, s)
      | Inr host \<Rightarrow>
          (case guard ''Invariant: context stack was not initialized''
                  (contextStackMap s host) of
             Inl e \<Rightarrow> (Inl e, s)
           | Inr stack \<Rightarrow>
               let previousFrame = (if stack = [] then None else Some (last stack));
                   freshFrame = (case previousFrame of None \<Rightarrow> Map.empty | Some f \<Rightarrow> f);
                   freshFrame' = freshFrame(key_id key \<mapsto> v)
               in (Inr (),
                   s\<lparr>contextStackMap := (contextStackMap s)(host \<mapsto>
                        stack @ [freshFrame'])\<rparr>)))"

text \<open>\<^verbatim>\<open>String(key.id)\<close> of a symbol with description \<open>d\<close> is \<^verbatim>\<open>Symbol(d)\<close>.\<close>

fun symbolString :: "symbol \<Rightarrow> string" where
  "symbolString (Symbol n d) = ''Symbol('' @ d @ '')''"

definition missingContext :: "ContextKey \<Rightarrow> error" where
  "missingContext key =
     Error (''No context value or default found for key '' @ symbolString (key_id key))"

definition useContext :: "ContextKey \<Rightarrow> ('w, 'm, cell) op" where
  "useContext key s =
     (case guard ''useContext() called outside render'' (currentRenderElement s) of
        Inl e \<Rightarrow> (Inl e, s)
      | Inr host \<Rightarrow>
          let stack = contextStackMap s host;
              top = (case stack of
                       None \<Rightarrow> None
                     | Some st \<Rightarrow> if st = [] then None else Some (st ! (length st - 1)))
          in (case (case top of None \<Rightarrow> None | Some f \<Rightarrow> f (key_id key)) of
                Some c \<Rightarrow> (Inr c, s)
              | None \<Rightarrow>
                  (case key_default key of
                     Some d \<Rightarrow> (Inr d, s)
                   | None \<Rightarrow> (Inl (missingContext key), s))))"

definition createContextKey ::
  "jsval \<Rightarrow> string \<Rightarrow> ('w, 'm, ContextKey) op" where
  "createContextKey defaultValue name s =
     (let sym = Symbol (nextSymbol s) (if name = [] then ''Context'' else name);
          s1 = s\<lparr>nextSymbol := nextSymbol s + 1\<rparr>
      in if defaultValue = Undefined
         then (Inr \<lparr>key_id = sym, key_default = None\<rparr>, s1)
         else (case newState defaultValue s1 of
                 (Inl e, s2) \<Rightarrow> (Inl e, s2)
               | (Inr d, s2) \<Rightarrow> (Inr \<lparr>key_id = sym, key_default = Some d\<rparr>, s2)))"

text \<open>
  \<^verbatim>\<open>createContext\<close> returns \<^verbatim>\<open>{ Provider, use, context }\<close>; the two closures capture
  \<^verbatim>\<open>defaultValue\<close> and \<^verbatim>\<open>context\<close>. The model returns what they capture, and \<open>Provider\<close>
  and \<open>use\<close> take it as their first argument.
\<close>

record Context =
  ctx_defaultValue :: jsval
  ctx_context :: ContextKey

definition createContext :: "jsval \<Rightarrow> string \<Rightarrow> ('w, 'm, Context) op" where
  "createContext dv name s =
     (case createContextKey dv name s of
        (Inl e, s') \<Rightarrow> (Inl e, s')
      | (Inr k, s') \<Rightarrow> (Inr \<lparr>ctx_defaultValue = dv, ctx_context = k\<rparr>, s'))"

definition nullish :: "jsval \<Rightarrow> jsval \<Rightarrow> jsval" where
  "nullish a b = (if a = Undefined \<or> a = Null then b else a)"

definition Provider :: "Context \<Rightarrow> ('w, 'm, 'a) op \<Rightarrow> jsval \<Rightarrow> ('w, 'm, 'a) op" where
  "Provider ctx children v s =
     (case newState (nullish v (ctx_defaultValue ctx)) s of
        (Inl e, s') \<Rightarrow> (Inl e, s')
      | (Inr signal, s') \<Rightarrow>
          withFunctional
            (\<lambda>t. case provideContext (ctx_context ctx) signal t of
                    (Inl e, t') \<Rightarrow> (Inl e, t')
                  | (Inr u, t') \<Rightarrow> children t')
            None s')"

definition use :: "Context \<Rightarrow> ('w, 'm, cell) op" where
  "use ctx = useContext (ctx_context ctx)"

section \<open>States and render functions used in the statements\<close>

text \<open>
  The state of a freshly loaded module: no injected constructor, empty maps, no current
  host. \<open>g\<close> is the binding \<^verbatim>\<open>globalThis.Signal\<close>, \<open>w\<close> the user's world.
\<close>

definition initialState :: "ctor option \<Rightarrow> 'w \<Rightarrow> ('w, 'm) fstate" where
  "initialState g w =
     \<lparr>manualSignalCtor = None, globalSignal = g, storeMap = Map.empty,
      currentRenderElement = None, contextStackMap = Map.empty, effectMap = Map.empty,
      indexMap = Map.empty, signals = Map.empty, nextCell = 0, nextHost = 0,
      nextSymbol = 0, microtasks = [], world = w\<rparr>"

text \<open>The top frame of a host's context stack, and the binding of a key in it.\<close>

definition topFrame :: "('w, 'm) fstate \<Rightarrow> host \<Rightarrow> (symbol \<rightharpoonup> cell) option" where
  "topFrame s h =
     (case contextStackMap s h of
        None \<Rightarrow> None
      | Some st \<Rightarrow> (if st = [] then None else Some (last st)))"

definition inTopFrame :: "('w, 'm) fstate \<Rightarrow> host \<Rightarrow> symbol \<Rightarrow> cell option" where
  "inTopFrame s h k = (case topFrame s h of None \<Rightarrow> None | Some f \<Rightarrow> f k)"

text \<open>The content of a slot of a host's store.\<close>

definition slot :: "('w, 'm) fstate \<Rightarrow> host \<Rightarrow> slotkey \<Rightarrow> cell option" where
  "slot s h k = (case storeMap s h of None \<Rightarrow> None | Some st \<Rightarrow> st k)"

text \<open>
  The state in which \<open>withFunctional\<close> calls the render function: the host is current, its
  cursor is zero and its context stack is empty.
\<close>

definition inScope :: "host \<Rightarrow> ('w, 'm) fstate \<Rightarrow> ('w, 'm) fstate" where
  "inScope h s =
     s\<lparr>currentRenderElement := Some h,
       indexMap := (indexMap s)(h \<mapsto> Idx 0),
       contextStackMap := (contextStackMap s)(h \<mapsto> [])\<rparr>"

text \<open>The host of a pass that \<open>withFunctional\<close> starts with the host argument \<open>hostArg\<close>.\<close>

definition passHost :: "nat option \<Rightarrow> ('w, 'm) fstate \<Rightarrow> host" where
  "passHost hostArg s = fst (defaultHost hostArg s)"

text \<open>The effect records queued for a host.\<close>

definition queued :: "('w, 'm) fstate \<Rightarrow> host \<Rightarrow> 'w effect list" where
  "queued s h = (case effectMap s h of None \<Rightarrow> [] | Some q \<Rightarrow> q)"

definition exampleKey :: "cell option \<Rightarrow> ContextKey" where
  "exampleKey d = \<lparr>key_id = Symbol 0 ''Context'', key_default = d\<rparr>"

text \<open>A state inside a render pass on the user's host 0 whose context stack is \<open>st\<close>.\<close>

definition exampleStack :: "(symbol \<rightharpoonup> cell) list \<Rightarrow> (unit, unit) fstate" where
  "exampleStack st =
     (initialState (Some 0) ())\<lparr>currentRenderElement := Some (Given 0),
        contextStackMap := [Given 0 \<mapsto> st]\<rparr>"

text \<open>A render function that runs \<open>body\<close> and then raises \<open>e\<close>.\<close>

definition thenRaise :: "('w, 'm, 'a) op \<Rightarrow> error \<Rightarrow> ('w, 'm, 'a) op" where
  "thenRaise body e s = (case body s of (Inl x, s') \<Rightarrow> (Inl x, s') | (Inr r, s') \<Rightarrow> (Inl e, s'))"

definition loadedModule :: "(unit, unit) fstate" where
  "loadedModule = initialState None ()"

definition raisingRender :: "(unit, unit, unit) op" where
  "raisingRender = thenRaise (useEffect (\<lambda>w. (Inr None, w))) (Error ''boom'')"

text \<open>
  The state inside a render pass on the user's host 0, begun in a loaded module with both
  an injected constructor (1) and a global binding (0).
\<close>

definition bothCtors :: "(unit, unit) fstate" where
  "bothCtors = inScope (Given 0) ((initialState (Some 0) ())\<lparr>manualSignalCtor := Some 1\<rparr>)"

text \<open>A render function that calls \<open>useEffect\<close> once for each function of a list, in order.\<close>

fun useEffects :: "'w effectfn list \<Rightarrow> ('w, 'm, unit) op" where
  "useEffects [] s = (Inr (), s)"
| "useEffects (f # fs) s =
     (case useEffect f s of
        (Inl e, s') \<Rightarrow> (Inl e, s')
      | (Inr u, s') \<Rightarrow> useEffects fs s')"

text \<open>
  Calling effect functions one after the other on the user's world, in list order, up to
  the first that raises.
\<close>

fun runFns :: "'w effectfn list \<Rightarrow> 'w \<Rightarrow> (error + unit) \<times> 'w" where
  "runFns [] w = (Inr (), w)"
| "runFns (f # fs) w =
     (case f w of
        (Inl e, w') \<Rightarrow> (Inl e, w')
      | (Inr c, w') \<Rightarrow> runFns fs w')"

text \<open>
  Effect functions on a world that is a log of numbers: one appends its number, one
  raises, one appends its number and returns a cleanup that would append 99.
\<close>

definition logEffect :: "nat \<Rightarrow> nat list effectfn" where
  "logEffect i w = (Inr None, w @ [i])"

definition raisingEffect :: "nat list effectfn" where
  "raisingEffect w = (Inl (Error ''effect failed''), w)"

definition logCleanup :: "nat list callback" where
  "logCleanup w = (Inr (), w @ [99])"

definition cleanupEffect :: "nat \<Rightarrow> nat list effectfn" where
  "cleanupEffect i w = (Inr (Some logCleanup), w @ [i])"

definition logModule :: "(nat list, unit) fstate" where
  "logModule = initialState None []"

text \<open>The state after a render pass on host 0 that queued the given effect functions.\<close>

definition afterPass :: "nat list effectfn list \<Rightarrow> (nat list, unit) fstate" where
  "afterPass fs = snd (withFunctional (useEffects fs) (Some 0) logModule)"

text \<open>
  A pass on host 0 whose second effect raises, the microtask checkpoint, a second pass on
  host 0 that queues nothing, and the next checkpoint.
\<close>

definition failedFlush :: "(nat list, unit) fstate" where
  "failedFlush = snd (checkpoint (afterPass [logEffect 2, raisingEffect, logEffect 3]))"

definition laterFlush :: "(nat list, unit) fstate" where
  "laterFlush = snd (checkpoint (snd (withFunctional (useEffects []) (Some 0) failedFlush)))"

text \<open>The effect functions queued for a host, in queue order.\<close>

definition queuedFns :: "('w, 'm) fstate \<Rightarrow> host \<Rightarrow> 'w effectfn list" where
  "queuedFns s h = map effect_function (queued s h)"

text \<open>
  What running the pending flushes one after the other does to the queued effect functions
  and to the user's world: the flush of a host calls the functions queued for that host,
  in queue order up to the first that raises, and empties that queue when all of them
  returned.
\<close>

fun drainFns ::
  "host list \<Rightarrow> (host \<Rightarrow> 'w effectfn list) \<Rightarrow> 'w \<Rightarrow> (host \<Rightarrow> 'w effectfn list) \<times> 'w" where
  "drainFns [] Q w = (Q, w)"
| "drainFns (g # gs) Q w =
     (case runFns (Q g) w of
        (Inl e, w') \<Rightarrow> drainFns gs Q w'
      | (Inr u, w') \<Rightarrow> drainFns gs (Q(g := [])) w')"

text \<open>
  Two passes in one tick: a pass on the user's host 2 that queues an effect logging 5,
  and then, before any checkpoint, a pass on host 0 that queues effects logging 2 and 3.
\<close>

definition onePending :: "(nat list, unit) fstate" where
  "onePending = snd (withFunctional (useEffects [logEffect 5]) (Some 2) logModule)"

definition twoPending :: "(nat list, unit) fstate" where
  "twoPending = snd (withFunctional (useEffects [logEffect 2, logEffect 3]) (Some 0) onePending)"

text \<open>The state after a render pass on host 0 that calls \<open>onCleanup\<close> and then \<open>useEffect\<close>.\<close>

definition afterCleanupPass :: "(nat list, unit) fstate" where
  "afterCleanupPass =
     snd (withFunctional
            (\<lambda>t. case onCleanup logCleanup t of
                    (Inl e, t') \<Rightarrow> (Inl e, t')
                  | (Inr u, t') \<Rightarrow> useEffect (logEffect 3) t')
            (Some 0) logModule)"

text \<open>
  The state in which \<open>Provider\<close> calls \<open>children\<close>, when the constructor in use is \<open>m\<close>:
  the new cell is allocated, a new host is current, and that host's context stack holds
  the one frame that binds the key to the cell.
\<close>

definition providerScope ::
  "Context \<Rightarrow> jsval \<Rightarrow> ctor \<Rightarrow> ('w, 'm) fstate \<Rightarrow> ('w, 'm) fstate" where
  "providerScope ctx v m s =
     s\<lparr>signals := (signals s)(nextCell s \<mapsto> StateObj m (nullish v (ctx_defaultValue ctx))),
       nextCell := nextCell s + 1,
       nextHost := nextHost s + 1,
       currentRenderElement := Some (Default (nextHost s)),
       indexMap := (indexMap s)(Default (nextHost s) \<mapsto> Idx 0),
       contextStackMap := (contextStackMap s)(Default (nextHost s) \<mapsto>
          [[key_id (ctx_context ctx) \<mapsto> nextCell s]])\<rparr>"

text \<open>
  The default hosts are in order when a host that the default parameter has not created
  yet is not current, owns no store, context stack, effect queue or cursor, and is awaited
  by no microtask. It is so when the module is loaded, and the operations of the library
  keep it so (see the lemmas on \<open>keepsHosts\<close> below).
\<close>

definition hostsOK :: "('w, 'm) fstate \<Rightarrow> bool" where
  "hostsOK s \<longleftrightarrow>
     (\<forall>k. nextHost s \<le> k \<longrightarrow>
        currentRenderElement s \<noteq> Some (Default k)
        \<and> storeMap s (Default k) = None
        \<and> contextStackMap s (Default k) = None
        \<and> effectMap s (Default k) = None
        \<and> indexMap s (Default k) = None
        \<and> Default k \<notin> set (microtasks s))"

text \<open>
  An operation keeps the default hosts when it keeps them in order and does not take the
  counter back.
\<close>

definition keepsHosts :: "('w, 'm, 'a) op \<Rightarrow> bool" where
  "keepsHosts r \<longleftrightarrow>
     (\<forall>s. hostsOK s \<longrightarrow> hostsOK (snd (r s)) \<and> nextHost s \<le> nextHost (snd (r s)))"

definition exampleContext :: Context where
  "exampleContext = \<lparr>ctx_defaultValue = Undefined, ctx_context = exampleKey None\<rparr>"

text \<open>Children that return the host that is current while they run.\<close>

definition readHost :: "(unit, unit, host option) op" where
  "readHost t = (Inr (currentRenderElement t), t)"

text \<open>
  A render function that calls \<open>useState\<close> once for each initial value of a list, in
  order, and returns the signals it got.
\<close>

fun useStates :: "jsval list \<Rightarrow> ('w, 'm, cell list) op" where
  "useStates [] s = (Inr [], s)"
| "useStates (v # vs) s =
     (case useState v s of
        (Inl e, s') \<Rightarrow> (Inl e, s')
      | (Inr c, s') \<Rightarrow>
          (case useStates vs s' of
             (Inl e, s'') \<Rightarrow> (Inl e, s'')
           | (Inr cs, s'') \<Rightarrow> (Inr (c # cs), s'')))"

text \<open>
  A state inside a render pass on the user's host 0, with the injected constructor 1,
  after an earlier pass on the user's host 2 that called \<open>useState\<close> once.
\<close>

definition earlierPass :: "(unit, unit) fstate" where
  "earlierPass =
     inScope (Given 0)
       (snd (withFunctional (useStates [Undefined]) (Some 2)
               ((initialState (Some 0) ())\<lparr>manualSignalCtor := Some 1\<rparr>)))"

text \<open>
  The stores are in order when every stored cell has been allocated and no cell is stored
  for two hosts.
\<close>

definition storesOK :: "('w, 'm) fstate \<Rightarrow> bool" where
  "storesOK s \<longleftrightarrow>
     (\<forall>h k c. slot s h k = Some c \<longrightarrow> c < nextCell s)
     \<and> (\<forall>h h' k k' c. slot s h k = Some c \<and> slot s h' k' = Some c \<longrightarrow> h = h')"

text \<open>Every populated slot of \<open>s\<close> still holds the same cell in \<open>t\<close>.\<close>

definition slotsKept :: "('w, 'm) fstate \<Rightarrow> ('w, 'm) fstate \<Rightarrow> bool" where
  "slotsKept s t \<longleftrightarrow> (\<forall>h k c. slot s h k = Some c \<longrightarrow> slot t h k = Some c)"

text \<open>
  A render function keeps the stores when it leaves every populated slot as it is and
  keeps the stores in order.
\<close>

definition keepsStores :: "('w, 'm, 'a) op \<Rightarrow> bool" where
  "keepsStores r \<longleftrightarrow>
     (\<forall>s. slotsKept s (snd (r s)) \<and> (storesOK s \<longrightarrow> storesOK (snd (r s))))"


section \<open>Hooks outside a render pass\<close>

text \<open>
  C7. With no current host, each of the state, reducer, memo, callback, effect, mount,
  cleanup, provide and consume operations raises an error whose message names the
  operation, and the state it returns is the state it was given: the slot stores, the
  cursors, the context stacks and the effect queues are all unchanged.
\<close>

theorem hooks_fail_without_host:
  assumes "currentRenderElement s = None"
  shows "useState v s = (Inl (Error ''useState() called outside render''), s)
       \<and> useReducer reducer v s = (Inl (Error ''useState() called outside render''), s)
       \<and> useMemo f s = (Inl (Error ''useMemo() called outside render''), s)
       \<and> useCallback f s = (Inl (Error ''useCallback() called outside render''), s)
       \<and> useEffect ef s = (Inl (Error ''useEffect() called outside render''), s)
       \<and> onMount cb s = (Inl (Error ''useEffect() called outside render''), s)
       \<and> onCleanup cb s = (Inl (Error ''useEffect() called outside render''), s)
       \<and> provideContext key c s = (Inl (Error ''provideContext() called outside render''), s)
       \<and> useContext key s = (Inl (Error ''useContext() called outside render''), s)"
  using assms
  by (simp add: useState_def useReducer_def useMemo_def useCallback_def useEffect_def
        onMount_def onCleanup_def provideContext_def useContext_def guard_def)

theorem hooks_fail_without_host_witness:
  "currentRenderElement (initialState None () :: (unit, unit) fstate) = None
   \<and> useState (Num 0) (initialState None () :: (unit, unit) fstate)
       = (Inl (Error ''useState() called outside render''), initialState None ())
   \<and> useEffect (\<lambda>w. (Inr None, w)) (initialState None () :: (unit, unit) fstate)
       = (Inl (Error ''useEffect() called outside render''), initialState None ())"
proof -
  have unset: "currentRenderElement (initialState None () :: (unit, unit) fstate) = None"
    by (simp add: initialState_def)
  from hooks_fail_without_host [OF unset] unset show ?thesis
    by blast
qed

section \<open>Consuming a context\<close>

lemma useContext_eq:
  "currentRenderElement s = Some h \<Longrightarrow>
   useContext key s =
     (case inTopFrame s h (key_id key) of
        Some c \<Rightarrow> (Inr c, s)
      | None \<Rightarrow> (case key_default key of
                   Some d \<Rightarrow> (Inr d, s)
                 | None \<Rightarrow> (Inl (missingContext key), s)))"
  by (cases "contextStackMap s h")
     (auto simp: useContext_def guard_def inTopFrame_def topFrame_def Let_def last_conv_nth
           split: option.splits)

text \<open>
  C8. During a render pass on host \<open>h\<close>, \<open>useContext key\<close> returns the cell bound to the
  key in the top frame of \<open>h\<close>'s context stack; when the key is not bound there it returns
  the key's default cell; when there is no default either it raises the missing-context
  error. It raises exactly when the key is absent from the top frame and has no default.
  The state is unchanged in every case. Only the top frame is read: the binding looked up
  in a stack \<open>below @ [frame]\<close> is that of \<open>frame\<close>, whatever \<open>below\<close> holds, and an empty
  stack binds nothing.
\<close>

theorem useContext_reads_top_frame:
  assumes "currentRenderElement s = Some h"
  shows "useContext key s =
           (case inTopFrame s h (key_id key) of
              Some c \<Rightarrow> (Inr c, s)
            | None \<Rightarrow> (case key_default key of
                         Some d \<Rightarrow> (Inr d, s)
                       | None \<Rightarrow> (Inl (missingContext key), s)))
       \<and> ((\<exists>e. fst (useContext key s) = Inl e) \<longleftrightarrow>
            inTopFrame s h (key_id key) = None \<and> key_default key = None)
       \<and> inTopFrame (s\<lparr>contextStackMap := (contextStackMap s)(h \<mapsto> below @ [frame])\<rparr>) h k
            = frame k
       \<and> inTopFrame (s\<lparr>contextStackMap := (contextStackMap s)(h \<mapsto> [])\<rparr>) h k = None"
  using assms by (auto simp: useContext_eq inTopFrame_def topFrame_def split: option.splits)

theorem useContext_reads_top_frame_witness:
  "currentRenderElement (exampleStack [[Symbol 0 ''Context'' \<mapsto> 3], Map.empty])
     = Some (Given 0)
   \<and> fst (useContext (exampleKey (Some 7))
             (exampleStack [[Symbol 0 ''Context'' \<mapsto> 3], Map.empty])) = Inr 7
   \<and> fst (useContext (exampleKey (Some 7))
             (exampleStack [Map.empty, [Symbol 0 ''Context'' \<mapsto> 3]])) = Inr 3
   \<and> fst (useContext (exampleKey None)
             (exampleStack [[Symbol 0 ''Context'' \<mapsto> 3], Map.empty]))
        = Inl (missingContext (exampleKey None))"
  using useContext_reads_top_frame
          [of "exampleStack [[Symbol 0 ''Context'' \<mapsto> 3], Map.empty]" "Given 0"
              "exampleKey (Some 7)"]
        useContext_reads_top_frame
          [of "exampleStack [Map.empty, [Symbol 0 ''Context'' \<mapsto> 3]]" "Given 0"
              "exampleKey (Some 7)"]
        useContext_reads_top_frame
          [of "exampleStack [[Symbol 0 ''Context'' \<mapsto> 3], Map.empty]" "Given 0"
              "exampleKey None"]
  by (simp add: exampleStack_def exampleKey_def initialState_def inTopFrame_def topFrame_def)

section \<open>The Signal constructor\<close>

text \<open>
  C9. When a constructor \<open>m\<close> has been injected, \<open>Signal\<close> is \<open>m\<close> whatever the global
  binding is, also when both are present, and \<open>setSignalConstructor c\<close> makes it \<open>c\<close>;
  the setup error is raised exactly when the injected constructor and the global binding
  are both absent. Every operation that constructs a cell then builds it with \<open>m\<close>: the
  state and computed constructions, \<open>useMemo\<close>, \<open>useCallback\<close>, \<open>useState\<close> on an empty
  slot, \<open>createContextKey\<close> with a default value, and \<open>Provider\<close>.
\<close>

theorem injected_constructor_precedes_global:
  assumes "manualSignalCtor s = Some m" and "currentRenderElement s = Some h"
  shows "Signal s = Inr m
       \<and> Signal (setSignalConstructor c t) = Inr c
       \<and> ((\<exists>e. Signal t = Inl e) \<longleftrightarrow> manualSignalCtor t = None \<and> globalSignal t = None)
       \<and> newState v s = (Inr (nextCell s), snd (alloc (StateObj m v) s))
       \<and> newComputed g s = (Inr (nextCell s), snd (alloc (ComputedObj m g) s))
       \<and> signals (snd (alloc obj s)) (nextCell s) = Some obj
       \<and> useMemo f s = newComputed (Thunk f) s
       \<and> useCallback f s = newComputed (Constantly f) s
       \<and> (case slot s h (slot_of (indexMap s h)) of
            Some c \<Rightarrow> fst (useState v s) = Inr c
          | None \<Rightarrow> fst (useState v s) = Inr (nextCell s)
                  \<and> signals (snd (useState v s)) (nextCell s) = Some (StateObj m v))
       \<and> (if dv = Undefined then nextCell (snd (createContextKey dv name s)) = nextCell s
           else (\<exists>k s'. createContextKey dv name s = (Inr k, s')
                  \<and> key_default k = Some (nextCell s)
                  \<and> signals s' (nextCell s) = Some (StateObj m dv)))
       \<and> Provider ctx children v s =
            withFunctional
              (\<lambda>t. case provideContext (ctx_context ctx) (nextCell s) t of
                      (Inl e, t') \<Rightarrow> (Inl e, t')
                    | (Inr u, t') \<Rightarrow> children t')
              None (snd (alloc (StateObj m (nullish v (ctx_defaultValue ctx))) s))"
  using assms
  apply (intro conjI)
  subgoal by (simp add: Signal_def)
  subgoal by (simp add: Signal_def setSignalConstructor_def)
  subgoal by (auto simp: Signal_def split: option.splits)
  subgoal by (simp add: newState_def Signal_def alloc_def)
  subgoal by (simp add: newComputed_def Signal_def alloc_def)
  subgoal by (simp add: alloc_def)
  subgoal by (simp add: useMemo_def guard_def)
  subgoal by (simp add: useCallback_def guard_def)
  subgoal by (auto simp: useState_def guard_def slot_def Let_def newState_def Signal_def alloc_def split: option.splits)
  subgoal by (auto simp: createContextKey_def Let_def newState_def Signal_def alloc_def)
  subgoal by (simp add: Provider_def newState_def Signal_def alloc_def)
  done

theorem injected_constructor_precedes_global_witness:
  "manualSignalCtor bothCtors = Some 1 \<and> globalSignal bothCtors = Some 0
   \<and> currentRenderElement bothCtors = Some (Given 0)
   \<and> Signal bothCtors = Inr 1
   \<and> fst (useState (Num 5) bothCtors) = Inr 0
   \<and> signals (snd (useState (Num 5) bothCtors)) 0 = Some (StateObj 1 (Num 5))
   \<and> signals (snd (useMemo () bothCtors)) 0 = Some (ComputedObj 1 (Thunk ()))"
proof -
  have manual: "manualSignalCtor bothCtors = Some 1"
    and host: "currentRenderElement bothCtors = Some (Given 0)"
    and empty: "slot bothCtors (Given 0) (slot_of (indexMap bothCtors (Given 0))) = None"
    and fresh: "nextCell bothCtors = 0"
    and glob: "globalSignal bothCtors = Some 0"
    by (simp_all add: bothCtors_def inScope_def initialState_def slot_def)
  note r = injected_constructor_precedes_global [OF manual host, where v = "Num 5" and f = "()"
      and g = "Thunk ()" and obj = "ComputedObj 1 (Thunk ())" and c = 2 and t = bothCtors
      and dv = Undefined and name = "[]" and ctx = "\<lparr>ctx_defaultValue = Undefined,
        ctx_context = exampleKey None\<rparr>" and children = "\<lambda>t. (Inr (), t)"]
  from r have "Signal bothCtors = Inr 1" by blast
  moreover from r empty fresh have "fst (useState (Num 5) bothCtors) = Inr 0
     \<and> signals (snd (useState (Num 5) bothCtors)) 0 = Some (StateObj 1 (Num 5))"
    by simp
  moreover from r fresh have "signals (snd (useMemo () bothCtors)) 0 = Some (ComputedObj 1 (Thunk ()))"
    by simp
  ultimately show ?thesis using manual host glob by simp
qed

section \<open>The render scope\<close>

lemma withFunctional_eq:
  "defaultHost hostArg s = (h, s0) \<Longrightarrow>
   withFunctional renderFunction hostArg s =
     (case renderFunction (inScope h s0) of
        (Inr result, s4) \<Rightarrow>
          (Inr result, s4\<lparr>microtasks := microtasks s4 @ [h],
                          currentRenderElement := currentRenderElement s\<rparr>)
      | (Inl e, s4) \<Rightarrow> (Inl e, s4\<lparr>currentRenderElement := currentRenderElement s\<rparr>))"
  by (auto simp: withFunctional_def inScope_def defaultHost_def newHost_def Let_def
      split: option.splits prod.splits sum.splits)

text \<open>
  C5. When the render function raises \<open>e\<close> and leaves the state \<open>s'\<close>, \<open>withFunctional\<close>
  raises \<open>e\<close> and leaves \<open>s'\<close> with the current host set back to what it was before the
  call: no microtask is added to those of \<open>s'\<close>, and the effect queues are those of \<open>s'\<close>.
  In particular a render function that calls \<open>useEffect f\<close> and then raises leaves the
  record of \<open>f\<close> at the end of the host's queue, schedules no flush and restores the host.
\<close>

theorem raising_render_restores_host:
  assumes "defaultHost hostArg s = (h, s0)"
    and "renderFunction (inScope h s0) = (Inl e, s')"
  shows "withFunctional renderFunction hostArg s
           = (Inl e, s'\<lparr>currentRenderElement := currentRenderElement s\<rparr>)
       \<and> currentRenderElement (snd (withFunctional renderFunction hostArg s))
           = currentRenderElement s
       \<and> microtasks (snd (withFunctional renderFunction hostArg s)) = microtasks s'
       \<and> effectMap (snd (withFunctional renderFunction hostArg s)) = effectMap s'
       \<and> fst (withFunctional (thenRaise (useEffect f) e) (Some n) s) = Inl e
       \<and> effectMap (snd (withFunctional (thenRaise (useEffect f) e) (Some n) s)) (Given n)
           = Some (queued s (Given n) @ [\<lparr>effect_function = f, cleanup = None\<rparr>])
       \<and> microtasks (snd (withFunctional (thenRaise (useEffect f) e) (Some n) s))
           = microtasks s
       \<and> currentRenderElement (snd (withFunctional (thenRaise (useEffect f) e) (Some n) s))
           = currentRenderElement s"
proof -
  have gen: "withFunctional renderFunction hostArg s
           = (Inl e, s'\<lparr>currentRenderElement := currentRenderElement s\<rparr>)"
    using assms by (simp add: withFunctional_eq)
  have "defaultHost (Some n) s = (Given n, s)"
    by (simp add: defaultHost_def)
  then have "withFunctional (thenRaise (useEffect f) e) (Some n) s
     = (Inl e, (inScope (Given n) s)\<lparr>effectMap := (effectMap s)(Given n \<mapsto>
          queued s (Given n) @ [\<lparr>effect_function = f, cleanup = None\<rparr>]),
          currentRenderElement := currentRenderElement s\<rparr>)"
    by (simp add: withFunctional_eq thenRaise_def useEffect_def guard_def inScope_def
        queued_def Let_def)
  with gen show ?thesis
    by (simp add: inScope_def)
qed

theorem raising_render_restores_host_witness:
  "defaultHost (Some 0) loadedModule = (Given 0, loadedModule)
   \<and> raisingRender (inScope (Given 0) loadedModule)
       = (Inl (Error ''boom''),
          (inScope (Given 0) loadedModule)\<lparr>effectMap :=
             [Given 0 \<mapsto> [\<lparr>effect_function = \<lambda>w. (Inr None, w), cleanup = None\<rparr>]]\<rparr>)
   \<and> fst (withFunctional raisingRender (Some 0) loadedModule) = Inl (Error ''boom'')
   \<and> currentRenderElement (snd (withFunctional raisingRender (Some 0) loadedModule)) = None
   \<and> microtasks (snd (withFunctional raisingRender (Some 0) loadedModule)) = []
   \<and> map cleanup (queued (snd (withFunctional raisingRender (Some 0) loadedModule)) (Given 0))
       = [None]"
proof -
  let ?s' = "(inScope (Given 0) loadedModule)\<lparr>effectMap :=
             [Given 0 \<mapsto> [\<lparr>effect_function = \<lambda>w. (Inr None, w), cleanup = None\<rparr>]]\<rparr>"
  have arg: "defaultHost (Some 0) loadedModule = (Given 0, loadedModule)"
    by (simp add: defaultHost_def)
  have raised: "raisingRender (inScope (Given 0) loadedModule) = (Inl (Error ''boom''), ?s')"
    by (simp add: raisingRender_def thenRaise_def useEffect_def guard_def inScope_def
        loadedModule_def initialState_def)
  have res: "withFunctional raisingRender (Some 0) loadedModule
      = (Inl (Error ''boom''), ?s'\<lparr>currentRenderElement := currentRenderElement loadedModule\<rparr>)"
    using raising_render_restores_host
         [of "Some 0" loadedModule "Given 0" loadedModule raisingRender "Error ''boom''" ?s'
             "\<lambda>w. (Inr None, w)" 0, OF arg raised]
    by blast
  have after: "fst (withFunctional raisingRender (Some 0) loadedModule) = Inl (Error ''boom'')"
      "currentRenderElement (snd (withFunctional raisingRender (Some 0) loadedModule)) = None"
      "microtasks (snd (withFunctional raisingRender (Some 0) loadedModule)) = []"
      "map cleanup (queued (snd (withFunctional raisingRender (Some 0) loadedModule)) (Given 0)) = [None]"
    unfolding res by (simp_all add: queued_def inScope_def loadedModule_def initialState_def)
  from arg raised after show ?thesis
    by (intro conjI)
qed

section \<open>The default cell of a context\<close>

lemma inTopFrame_inScope: "inTopFrame (inScope h s) h k = None"
  by (simp add: inTopFrame_def topFrame_def inScope_def)

text \<open>
  C10. Creating a context with a default value (one that is not \<^verbatim>\<open>undefined\<close>), when a
  constructor is available, constructs exactly one cell: the signal heap grows by the
  one state object holding the default value, and that cell is the key's default. Every
  \<open>use\<close> of the context that does not find the key in the top frame, in any state and on
  any host, returns this same cell and constructs nothing; so after a write to the cell
  every such consumer gets the cell and reads the written value.
\<close>

theorem default_cell_is_shared:
  fixes s :: "('w, 'm) fstate"
  assumes "dv \<noteq> Undefined" and "Signal s = Inr m"
  shows "\<exists>ctx s'. createContext dv name s = (Inr ctx, s')
           \<and> key_default (ctx_context ctx) = Some (nextCell s)
           \<and> signals s' = (signals s)(nextCell s \<mapsto> StateObj m dv)
           \<and> nextCell s' = nextCell s + 1
           \<and> (\<forall>(t :: ('w, 'm) fstate) h. currentRenderElement t = Some h
                  \<and> inTopFrame t h (key_id (ctx_context ctx)) = None
                \<longrightarrow> use ctx t = (Inr (nextCell s), t))
           \<and> (\<forall>(t :: ('w, 'm) fstate) h x c old. currentRenderElement t = Some h
                  \<and> inTopFrame t h (key_id (ctx_context ctx)) = None
                  \<and> signals t (nextCell s) = Some (StateObj c old)
                \<longrightarrow> fst (use ctx (sig_set (nextCell s) x t)) = Inr (nextCell s)
                  \<and> sig_get (nextCell s) (snd (use ctx (sig_set (nextCell s) x t))) = Some x)"
proof -
  let ?d = "nextCell s"
  let ?k = "\<lparr>key_id = Symbol (nextSymbol s) (if name = [] then ''Context'' else name),
             key_default = Some ?d\<rparr>"
  let ?ctx = "\<lparr>ctx_defaultValue = dv, ctx_context = ?k\<rparr>"
  let ?s' = "snd (alloc (StateObj m dv) (s\<lparr>nextSymbol := nextSymbol s + 1\<rparr>))"
  have sig: "Signal (s\<lparr>nextSymbol := nextSymbol s + 1\<rparr>) = Inr m"
    using assms(2) by (simp add: Signal_def split: option.splits)
  have created: "createContext dv name s = (Inr ?ctx, ?s')"
    using assms(1) sig
    by (simp add: createContext_def createContextKey_def Let_def newState_def alloc_def)
  have consume: "use ?ctx t = (Inr ?d, t)"
    if "currentRenderElement t = Some h" and "inTopFrame t h (key_id (ctx_context ?ctx)) = None"
    for t :: "('w, 'm) fstate" and h
    using that by (simp add: use_def useContext_eq)
  have written: "fst (use ?ctx (sig_set ?d x t)) = Inr ?d
        \<and> sig_get ?d (snd (use ?ctx (sig_set ?d x t))) = Some x"
    if host: "currentRenderElement t = Some h"
      and absent: "inTopFrame t h (key_id (ctx_context ?ctx)) = None"
      and obj: "signals t ?d = Some (StateObj c old)"
    for t :: "('w, 'm) fstate" and h x c old
  proof -
    have "currentRenderElement (sig_set ?d x t) = Some h"
      using host obj by (simp add: sig_set_def)
    moreover have "inTopFrame (sig_set ?d x t) h (key_id (ctx_context ?ctx)) = None"
      using absent obj by (simp add: sig_set_def inTopFrame_def topFrame_def)
    ultimately have "use ?ctx (sig_set ?d x t) = (Inr ?d, sig_set ?d x t)"
      by (rule consume)
    then show ?thesis
      using obj by (simp add: sig_get_def sig_set_def)
  qed
  have "key_default (ctx_context ?ctx) = Some ?d"
    and "signals ?s' = (signals s)(?d \<mapsto> StateObj m dv)"
    and "nextCell ?s' = ?d + 1"
    by (simp_all add: alloc_def)
  with created consume written show ?thesis
    by blast
qed

theorem default_cell_is_shared_witness:
  "Str ''light'' \<noteq> Undefined \<and> Signal bothCtors = Inr 1
   \<and> (\<exists>ctx s'. createContext (Str ''light'') [] bothCtors = (Inr ctx, s')
         \<and> currentRenderElement (inScope (Given 3) s') = Some (Given 3)
         \<and> inTopFrame (inScope (Given 3) s') (Given 3) (key_id (ctx_context ctx)) = None
         \<and> use ctx (inScope (Given 3) s') = (Inr 0, inScope (Given 3) s')
         \<and> use ctx (inScope (Given 4) s') = (Inr 0, inScope (Given 4) s')
         \<and> sig_get 0 (snd (use ctx (sig_set 0 (Str ''dark'') (inScope (Given 4) s')))) = Some (Str ''dark''))"
proof -
  have dv: "Str ''light'' \<noteq> Undefined" by simp
  have ctor: "Signal bothCtors = Inr 1"
    by (simp add: Signal_def bothCtors_def inScope_def)
  have zero: "nextCell bothCtors = 0"
    by (simp add: bothCtors_def inScope_def initialState_def)
  from default_cell_is_shared [OF dv ctor, of "[]"] obtain ctx s'
    where created: "createContext (Str ''light'') [] bothCtors = (Inr ctx, s')"
      and heap: "signals s' = (signals bothCtors)(0 \<mapsto> StateObj 1 (Str ''light''))"
      and consume: "\<And>(t :: (unit, unit) fstate) h. currentRenderElement t = Some h
              \<Longrightarrow> inTopFrame t h (key_id (ctx_context ctx)) = None
              \<Longrightarrow> use ctx t = (Inr 0, t)"
      and written: "\<And>(t :: (unit, unit) fstate) h x c old. currentRenderElement t = Some h
              \<Longrightarrow> inTopFrame t h (key_id (ctx_context ctx)) = None
              \<Longrightarrow> signals t 0 = Some (StateObj c old)
              \<Longrightarrow> sig_get 0 (snd (use ctx (sig_set 0 x t))) = Some x"
    unfolding zero by blast
  have host: "currentRenderElement (inScope h s') = Some h" for h
    by (simp add: inScope_def)
  have obj: "signals (inScope (Given 4) s') 0 = Some (StateObj 1 (Str ''light''))"
    using heap by (simp add: inScope_def)
  from created host [of "Given 3"] inTopFrame_inScope [of "Given 3" s']
    consume [OF host inTopFrame_inScope, of "Given 3"]
    consume [OF host inTopFrame_inScope, of "Given 4"]
    written [OF host inTopFrame_inScope obj] dv ctor
  show ?thesis
    by blast
qed

section \<open>The effect queue and its flush\<close>

lemma queued_Some: "effectMap s h = Some q \<Longrightarrow> queued s h = q"
  by (simp add: queued_def)

lemma useEffect_eq:
  "currentRenderElement s = Some h \<Longrightarrow>
   useEffect f s =
     (Inr (), s\<lparr>effectMap := (effectMap s)(h \<mapsto>
                 queued s h @ [\<lparr>effect_function = f, cleanup = None\<rparr>])\<rparr>)"
  by (simp add: useEffect_def guard_def queued_def Let_def)

lemma useEffects_eq:
  "currentRenderElement s = Some h \<Longrightarrow>
   useEffects fs s =
     (Inr (),
      if fs = [] then s
      else s\<lparr>effectMap := (effectMap s)(h \<mapsto>
               queued s h @ map (\<lambda>f. \<lparr>effect_function = f, cleanup = None\<rparr>) fs)\<rparr>)"
proof (induction fs arbitrary: s)
  case Nil
  then show ?case by simp
next
  case (Cons f fs)
  let ?s1 = "s\<lparr>effectMap := (effectMap s)(h \<mapsto>
                 queued s h @ [\<lparr>effect_function = f, cleanup = None\<rparr>])\<rparr>"
  have cur: "currentRenderElement ?s1 = Some h"
    using Cons.prems by simp
  have q1: "queued ?s1 h = queued s h @ [\<lparr>effect_function = f, cleanup = None\<rparr>]"
    by (simp add: queued_def)
  show ?case
    using Cons.prems Cons.IH [OF cur] q1
    by (simp add: useEffect_eq)
qed

text \<open>One run keeps the effect functions of the queue and touches nothing but the world and that queue.\<close>

lemma cleanup_update_keeps_functions:
  "map effect_function (q[k := (q ! k)\<lparr>cleanup := c\<rparr>]) = map effect_function q"
proof (cases "k < length q")
  case True
  then show ?thesis
    by (simp add: map_update list_update_same_conv)
next
  case False
  then show ?thesis
    by (simp add: list_update_beyond not_less)
qed

lemma run_eq:
  assumes "effectMap s h = Some q" and "i < length q"
  shows "\<exists>q'. run i h s =
            (case fst (effect_function (q ! i) (world s)) of Inl e \<Rightarrow> Inl e | Inr c \<Rightarrow> Inr (),
             s\<lparr>world := snd (effect_function (q ! i) (world s)),
               effectMap := (effectMap s)(h \<mapsto> q')\<rparr>)
          \<and> map effect_function q' = map effect_function q"
proof -
  have same: "(effectMap s)(h \<mapsto> q) = effectMap s"
    using assms(1) by (rule fun_upd_idem)
  obtain r w where call: "effect_function (q ! i) (world s) = (r, w)"
    by (cases "effect_function (q ! i) (world s)")
  show ?thesis
  proof (cases r)
    case (Inl e)
    with call assms have "run i h s = (Inl e, s\<lparr>world := w, effectMap := (effectMap s)(h \<mapsto> q)\<rparr>)"
      by (simp add: run_def same)
    with call Inl show ?thesis by auto
  next
    case (Inr c)
    show ?thesis
    proof (cases c)
      case None
      with call Inr assms
      have "run i h s = (Inr (), s\<lparr>world := w, effectMap := (effectMap s)(h \<mapsto> q)\<rparr>)"
        by (simp add: run_def same)
      with call Inr show ?thesis by auto
    next
      case (Some f)
      let ?q' = "q[length q - 1 := (q ! (length q - 1))\<lparr>cleanup := Some f\<rparr>]"
      from call Inr Some assms
      have "run i h s = (Inr (), s\<lparr>world := w, effectMap := (effectMap s)(h \<mapsto> ?q')\<rparr>)"
        by (simp add: run_def)
      moreover have "map effect_function ?q' = map effect_function q"
        by (rule cleanup_update_keeps_functions)
      ultimately show ?thesis
        using call Inr by auto
    qed
  qed
qed

lemma runEach_eq:
  assumes "effectMap s h = Some q" and "map effect_function q = fns"
    and "\<forall>i\<in>set is. i < length fns"
  shows "\<exists>q'. runEach is h s =
            (fst (runFns (map (nth fns) is) (world s)),
             s\<lparr>world := snd (runFns (map (nth fns) is) (world s)),
               effectMap := (effectMap s)(h \<mapsto> q')\<rparr>)
          \<and> map effect_function q' = fns"
  using assms
proof (induction "is" arbitrary: s q)
  case Nil
  have same: "(effectMap s)(h \<mapsto> q) = effectMap s"
    using Nil.prems(1) by (rule fun_upd_idem)
  have upd: "s\<lparr>world := world s, effectMap := (effectMap s)(h \<mapsto> q)\<rparr> = s"
    by (simp add: same)
  show ?case
    apply (rule exI [of _ q])
    apply (simp only: runEach.simps list.map runFns.simps fst_conv snd_conv upd)
    using Nil.prems(2) apply simp
    done
next
  case (Cons i "is")
  have len: "length q = length fns"
    using Cons.prems(2) by (metis length_map)
  have i: "i < length q"
    using Cons.prems(3) len by simp
  have fi: "fns ! i = effect_function (q ! i)"
    using Cons.prems(2) i by (metis nth_map)
  from run_eq [OF Cons.prems(1) i] obtain q1 where
    r: "run i h s =
            (case fst (effect_function (q ! i) (world s)) of Inl e \<Rightarrow> Inl e | Inr c \<Rightarrow> Inr (),
             s\<lparr>world := snd (effect_function (q ! i) (world s)),
               effectMap := (effectMap s)(h \<mapsto> q1)\<rparr>)"
    and m1: "map effect_function q1 = map effect_function q"
    by blast
  let ?s1 = "s\<lparr>world := snd (effect_function (q ! i) (world s)),
               effectMap := (effectMap s)(h \<mapsto> q1)\<rparr>"
  obtain res w where call: "effect_function (q ! i) (world s) = (res, w)"
    by (cases "effect_function (q ! i) (world s)")
  show ?case
  proof (cases res)
    case (Inl e)
    have "runEach (i # is) h s = (Inl e, ?s1)"
      using r call Inl by simp
    moreover have "runFns (map (nth fns) (i # is)) (world s) = (Inl e, world ?s1)"
      using fi call Inl by simp
    moreover have "?s1\<lparr>world := world ?s1, effectMap := (effectMap s)(h \<mapsto> q1)\<rparr> = ?s1"
      by simp
    ultimately have "runEach (i # is) h s =
            (fst (runFns (map (nth fns) (i # is)) (world s)),
             s\<lparr>world := snd (runFns (map (nth fns) (i # is)) (world s)),
               effectMap := (effectMap s)(h \<mapsto> q1)\<rparr>)"
      by simp
    moreover have "map effect_function q1 = fns"
      using m1 Cons.prems(2) by simp
    ultimately show ?thesis
      by blast
  next
    case (Inr c)
    have e1: "effectMap ?s1 h = Some q1" by simp
    have m: "map effect_function q1 = fns"
      using m1 Cons.prems(2) by simp
    have rest: "\<forall>i\<in>set is. i < length fns"
      using Cons.prems(3) by simp
    from Cons.IH [OF e1 m rest] obtain q2 where
      step: "runEach is h ?s1 =
            (fst (runFns (map (nth fns) is) (world ?s1)),
             ?s1\<lparr>world := snd (runFns (map (nth fns) is) (world ?s1)),
               effectMap := (effectMap ?s1)(h \<mapsto> q2)\<rparr>)"
      and m2: "map effect_function q2 = fns"
      by blast
    have fns: "runFns (map (nth fns) (i # is)) (world s) = runFns (map (nth fns) is) (world ?s1)"
      using fi call Inr by simp
    have "runEach (i # is) h s = runEach is h ?s1"
      using r call Inr by simp
    also note step
    also have "?s1\<lparr>world := snd (runFns (map (nth fns) is) (world ?s1)),
               effectMap := (effectMap ?s1)(h \<mapsto> q2)\<rparr>
        = s\<lparr>world := snd (runFns (map (nth fns) is) (world ?s1)),
               effectMap := (effectMap s)(h \<mapsto> q2)\<rparr>"
      by simp
    finally have "runEach (i # is) h s =
            (fst (runFns (map (nth fns) (i # is)) (world s)),
             s\<lparr>world := snd (runFns (map (nth fns) (i # is)) (world s)),
               effectMap := (effectMap s)(h \<mapsto> q2)\<rparr>)"
      unfolding fns .
    with m2 show ?thesis
      by blast
  qed
qed

lemma flush_run:
  assumes "effectMap s h = Some q"
  shows "\<exists>q'. map effect_function q' = map effect_function q
         \<and> runEach [0..<length q] h s =
            (fst (runFns (map effect_function q) (world s)),
             s\<lparr>world := snd (runFns (map effect_function q) (world s)),
               effectMap := (effectMap s)(h \<mapsto> q')\<rparr>)"
proof -
  let ?fns = "map effect_function q"
  have idx: "map (nth ?fns) [0..<length q] = ?fns"
    by (metis length_map map_nth)
  have "\<forall>i\<in>set [0..<length q]. i < length ?fns" by simp
  from runEach_eq [OF assms refl this] show ?thesis
    unfolding idx by blast
qed

lemma flush_raises:
  assumes "effectMap s h = Some q"
    and "fst (runFns (map effect_function q) (world s)) = Inl e"
  shows "\<exists>q'. map effect_function q' = map effect_function q
         \<and> flush h s =
            (Inl e, s\<lparr>world := snd (runFns (map effect_function q) (world s)),
                      effectMap := (effectMap s)(h \<mapsto> q')\<rparr>)"
proof -
  from flush_run [OF assms(1)] obtain q' where
    m: "map effect_function q' = map effect_function q"
    and r: "runEach [0..<length q] h s =
            (fst (runFns (map effect_function q) (world s)),
             s\<lparr>world := snd (runFns (map effect_function q) (world s)),
               effectMap := (effectMap s)(h \<mapsto> q')\<rparr>)"
    by blast
  have "flush h s =
            (Inl e, s\<lparr>world := snd (runFns (map effect_function q) (world s)),
                      effectMap := (effectMap s)(h \<mapsto> q')\<rparr>)"
    by (simp add: flush_def assms r)
  with m show ?thesis by blast
qed

lemma flush_returns:
  assumes "effectMap s h = Some q"
    and "fst (runFns (map effect_function q) (world s)) = Inr u"
  shows "flush h s =
            (Inr (), s\<lparr>world := snd (runFns (map effect_function q) (world s)),
                       effectMap := (effectMap s)(h := None)\<rparr>)"
proof -
  from flush_run [OF assms(1)] obtain q' where
    r: "runEach [0..<length q] h s =
            (fst (runFns (map effect_function q) (world s)),
             s\<lparr>world := snd (runFns (map effect_function q) (world s)),
               effectMap := (effectMap s)(h \<mapsto> q')\<rparr>)"
    by blast
  show ?thesis
    by (simp add: flush_def assms r)
qed

lemma flush_None: "effectMap s h = None \<Longrightarrow> flush h s = (Inr (), s)"
  by (simp add: flush_def)


lemma flush_world:
  "(fst (flush h s), world (snd (flush h s)))
     = runFns (map effect_function (queued s h)) (world s)"
proof (cases "effectMap s h")
  case None
  then show ?thesis by (simp add: flush_None queued_def)
next
  case (Some q)
  obtain r w where res: "runFns (map effect_function q) (world s) = (r, w)"
    by (cases "runFns (map effect_function q) (world s)")
  show ?thesis
  proof (cases r)
    case (Inl e)
    with flush_raises [OF Some, of e] res show ?thesis
      by (auto simp: queued_Some [OF Some])
  next
    case (Inr u)
    with flush_returns [OF Some, of u] res show ?thesis
      by (simp add: queued_Some [OF Some])
  qed
qed

lemma runFns_stops:
  "fst (runFns pre w) = Inr () \<Longrightarrow> f (snd (runFns pre w)) = (Inl e, w') \<Longrightarrow>
   runFns (pre @ f # post) w = (Inl e, w')"
  by (induction pre arbitrary: w) (auto split: prod.splits sum.splits)

lemma flush_microtasks: "microtasks (snd (flush h s)) = microtasks s"
proof (cases "effectMap s h")
  case None
  then show ?thesis by (simp add: flush_None)
next
  case (Some q)
  show ?thesis
  proof (cases "fst (runFns (map effect_function q) (world s))")
    case (Inl e)
    with flush_raises [OF Some, of e] show ?thesis by auto
  next
    case (Inr u)
    with flush_returns [OF Some, of u] show ?thesis by simp
  qed
qed

lemma flush_fns:
  "queuedFns (snd (flush h s)) =
     (case fst (runFns (queuedFns s h) (world s)) of
        Inl e \<Rightarrow> queuedFns s
      | Inr u \<Rightarrow> (queuedFns s)(h := []))"
proof (cases "effectMap s h")
  case None
  then have "queuedFns s h = []"
    by (simp add: queuedFns_def queued_def)
  then have "(queuedFns s)(h := []) = queuedFns s"
    by (simp add: fun_upd_idem)
  with None \<open>queuedFns s h = []\<close> show ?thesis
    by (simp add: flush_None)
next
  case (Some q)
  have fns: "queuedFns s h = map effect_function q"
    by (simp add: queuedFns_def queued_Some [OF Some])
  show ?thesis
  proof (cases "fst (runFns (map effect_function q) (world s))")
    case (Inl e)
    from flush_raises [OF Some Inl] obtain q' where
      m: "map effect_function q' = map effect_function q"
      and fl: "flush h s =
            (Inl e, s\<lparr>world := snd (runFns (map effect_function q) (world s)),
                      effectMap := (effectMap s)(h \<mapsto> q')\<rparr>)"
      by blast
    have "queuedFns (snd (flush h s)) g = queuedFns s g" for g
      using m Some by (simp add: fl queuedFns_def queued_def)
    then have "queuedFns (snd (flush h s)) = queuedFns s"
      by (rule ext)
    with Inl show ?thesis
      by (simp add: fns)
  next
    case (Inr u)
    have "queuedFns (snd (flush h s)) g = ((queuedFns s)(h := [])) g" for g
      by (simp add: flush_returns [OF Some Inr] queuedFns_def queued_def)
    then have "queuedFns (snd (flush h s)) = (queuedFns s)(h := [])"
      by (rule ext)
    with Inr show ?thesis
      by (simp add: fns)
  qed
qed

lemma drain_next: "snd (drain (h # hs) s) = snd (drain hs (snd (flush h s)))"
  by (simp split: prod.splits sum.splits)

text \<open>The flushes of a checkpoint, on the queued functions and the world.\<close>

lemma drain_fns:
  "(queuedFns (snd (drain hs s)), world (snd (drain hs s)))
     = drainFns hs (queuedFns s) (world s)"
proof (induction hs arbitrary: s)
  case Nil
  then show ?case by simp
next
  case (Cons h hs)
  let ?s1 = "snd (flush h s)"
  obtain r w where res: "runFns (queuedFns s h) (world s) = (r, w)"
    by (cases "runFns (queuedFns s h) (world s)")
  have w1: "world ?s1 = w" and r1: "fst (flush h s) = r"
    using flush_world [of h s] res by (simp_all add: queuedFns_def)
  have q1: "queuedFns ?s1 = (case r of Inl e \<Rightarrow> queuedFns s | Inr u \<Rightarrow> (queuedFns s)(h := []))"
    using flush_fns [of h s] res by simp
  have "(queuedFns (snd (drain (h # hs) s)), world (snd (drain (h # hs) s)))
      = drainFns hs (queuedFns ?s1) (world ?s1)"
    unfolding drain_next by (rule Cons.IH)
  also have "\<dots> = drainFns (h # hs) (queuedFns s) (world s)"
    by (cases r) (simp_all add: res w1 q1)
  finally show ?case .
qed

lemma drain_microtasks: "microtasks (snd (drain hs s)) = microtasks s"
proof (induction hs arbitrary: s)
  case Nil
  then show ?case by simp
next
  case (Cons h hs)
  show ?case
    unfolding drain_next by (simp add: Cons.IH flush_microtasks)
qed

lemma checkpoint_fns:
  "(queuedFns (snd (checkpoint s)), world (snd (checkpoint s)))
     = drainFns (microtasks s) (queuedFns s) (world s)
   \<and> microtasks (snd (checkpoint s)) = []"
proof -
  let ?t = "s\<lparr>microtasks := []\<rparr>"
  have "queuedFns ?t = queuedFns s"
    by (rule ext) (simp add: queuedFns_def queued_def)
  with drain_fns [of "microtasks s" ?t] drain_microtasks [of "microtasks s" ?t]
  show ?thesis
    by (simp add: checkpoint_def)
qed

lemma drainFns_append:
  "drainFns (gs @ hs) Q w = (case drainFns gs Q w of (Q1, w1) \<Rightarrow> drainFns hs Q1 w1)"
  by (induction gs arbitrary: Q w) (simp_all split: prod.splits sum.splits)

lemma drainFns_other: "h \<notin> set gs \<Longrightarrow> fst (drainFns gs Q w) h = Q h"
  by (induction gs arbitrary: Q w) (auto split: prod.splits sum.splits)

lemma drainFns_last:
  assumes "h \<notin> set gs"
  shows "snd (drainFns (gs @ [h]) Q w) = snd (runFns (Q h) (snd (drainFns gs Q w)))"
proof -
  obtain Q1 w1 where d: "drainFns gs Q w = (Q1, w1)"
    by (cases "drainFns gs Q w")
  have "Q1 h = Q h"
    using drainFns_other [OF assms, of Q w] d by simp
  then show ?thesis
    by (simp add: drainFns_append d split: prod.splits sum.splits)
qed

lemma afterPass_eq:
  "afterPass fs =
     (if fs = [] then (inScope (Given 0) logModule)\<lparr>microtasks := [Given 0], currentRenderElement := None\<rparr>
      else (inScope (Given 0) logModule)\<lparr>effectMap :=
               [Given 0 \<mapsto> map (\<lambda>f. \<lparr>effect_function = f, cleanup = None\<rparr>) fs],
             microtasks := [Given 0], currentRenderElement := None\<rparr>)"
proof -
  have cur: "currentRenderElement (inScope (Given 0) logModule) = Some (Given 0)"
    by (simp add: inScope_def)
  have "defaultHost (Some 0) logModule = (Given 0, logModule)"
    by (simp add: defaultHost_def)
  then show ?thesis
    by (simp add: afterPass_def withFunctional_eq useEffects_eq [OF cur])
       (simp add: inScope_def logModule_def initialState_def queued_def)
qed


lemma failedFlush_eq:
  "failedFlush =
     (inScope (Given 0) logModule)\<lparr>effectMap :=
         [Given 0 \<mapsto> map (\<lambda>f. \<lparr>effect_function = f, cleanup = None\<rparr>)
                  [logEffect 2, raisingEffect, logEffect 3]],
       microtasks := [], currentRenderElement := None, world := [2]\<rparr>"
  by (simp add: failedFlush_def afterPass_eq checkpoint_def flush_def run_def
      logEffect_def raisingEffect_def inScope_def logModule_def initialState_def)

text \<open>
  C6, as amended. A call of \<open>useEffect\<close> leaves the user's world as it is, and
  \<open>withFunctional\<close> leaves the world as the render function left it: no effect runs
  within the call that queued it. A render pass, on a host of the user or on a default
  host, that calls \<open>useEffect\<close> for the functions \<open>fs\<close>, in this order, and returns, has
  appended the functions to the host's queue in hook order and has queued one flush for
  the host, after the flushes that were pending, whatever they are. The flush of the host
  calls the queued functions in queue order, each on the world the one before it left, up
  to the first that raises: a function queued after one that raises is not called. The
  next microtask checkpoint runs the pending flushes in the order they were queued, this
  one last, and leaves no microtask; when no flush of the same host was pending, the
  effects of the pass run on the world that the earlier flushes left.
\<close>

theorem effects_run_at_checkpoint_in_hook_order:
  fixes s :: "('w, 'm) fstate"
  shows "world (snd (useEffect f s)) = world s
       \<and> world (snd (withFunctional r hostArg s))
            = world (snd (r (inScope (fst (defaultHost hostArg s))
                                     (snd (defaultHost hostArg s)))))
       \<and> (\<exists>s'. withFunctional (useEffects fs) hostArg s = (Inr (), s')
            \<and> world s' = world s
            \<and> microtasks s' = microtasks s @ [passHost hostArg s]
            \<and> queuedFns s' = (queuedFns s)(passHost hostArg s :=
                                  queuedFns s (passHost hostArg s) @ fs)
            \<and> (fst (flush (passHost hostArg s) s'), world (snd (flush (passHost hostArg s) s')))
                 = runFns (queuedFns s (passHost hostArg s) @ fs) (world s)
            \<and> (queuedFns (snd (checkpoint s')), world (snd (checkpoint s')))
                 = drainFns (microtasks s @ [passHost hostArg s]) (queuedFns s') (world s)
            \<and> microtasks (snd (checkpoint s')) = []
            \<and> (passHost hostArg s \<notin> set (microtasks s) \<longrightarrow>
                 world (snd (checkpoint s'))
                   = snd (runFns (queuedFns s (passHost hostArg s) @ fs)
                           (snd (drainFns (microtasks s) (queuedFns s') (world s))))))
       \<and> (fst (runFns pre w) = Inr () \<and> g (snd (runFns pre w)) = (Inl e, w')
            \<longrightarrow> runFns (pre @ g # post) w = (Inl e, w'))"
proof -
  obtain h s0 where d: "defaultHost hostArg s = (h, s0)"
    by (cases "defaultHost hostArg s")
  then have h: "passHost hostArg s = h"
    by (simp add: passHost_def)
  have s0: "world s0 = world s" "microtasks s0 = microtasks s" "effectMap s0 = effectMap s"
    using d by (cases hostArg; simp add: defaultHost_def newHost_def; auto)+
  let ?in = "inScope h s0"
  let ?s1 = "if fs = [] then ?in
      else ?in\<lparr>effectMap := (effectMap ?in)(h \<mapsto>
               queued ?in h @ map (\<lambda>f. \<lparr>effect_function = f, cleanup = None\<rparr>) fs)\<rparr>"
  let ?s' = "?s1\<lparr>microtasks := microtasks ?s1 @ [h],
                 currentRenderElement := currentRenderElement s\<rparr>"
  let ?fns = "queuedFns s h @ fs"
  have hook: "world (snd (useEffect f s)) = world s"
    by (simp add: useEffect_def guard_def Let_def split: option.splits)
  have scope: "world (snd (withFunctional r hostArg s))
            = world (snd (r (inScope (fst (defaultHost hostArg s))
                                     (snd (defaultHost hostArg s)))))"
    by (simp add: d withFunctional_eq [OF d] split: prod.splits sum.splits)
  have cur: "currentRenderElement ?in = Some h"
    by (simp add: inScope_def)
  have pass: "withFunctional (useEffects fs) hostArg s = (Inr (), ?s')"
    by (simp add: withFunctional_eq [OF d] useEffects_eq [OF cur])
  have w: "world ?s' = world s"
    by (simp add: inScope_def s0)
  have m: "microtasks ?s' = microtasks s @ [h]"
    by (simp add: inScope_def s0)
  have "queuedFns ?s' k = ((queuedFns s)(h := ?fns)) k" for k
    by (simp add: queuedFns_def queued_def inScope_def comp_def s0)
  then have q: "queuedFns ?s' = (queuedFns s)(h := ?fns)"
    by (rule ext)
  then have qh: "queuedFns ?s' h = ?fns"
    by simp
  have fl: "(fst (flush h ?s'), world (snd (flush h ?s'))) = runFns ?fns (world s)"
    using flush_world [of h ?s'] qh w by (simp add: queuedFns_def)
  have cp: "(queuedFns (snd (checkpoint ?s')), world (snd (checkpoint ?s')))
                 = drainFns (microtasks s @ [h]) (queuedFns ?s') (world s)"
    and none: "microtasks (snd (checkpoint ?s')) = []"
    using checkpoint_fns [of ?s'] by (simp_all only: m w)
  have last: "world (snd (checkpoint ?s'))
      = snd (runFns ?fns (snd (drainFns (microtasks s) (queuedFns ?s') (world s))))"
    if "h \<notin> set (microtasks s)"
  proof -
    have "world (snd (checkpoint ?s'))
        = snd (drainFns (microtasks s @ [h]) (queuedFns ?s') (world s))"
      using cp by (metis snd_conv)
    then show ?thesis
      unfolding drainFns_last [OF that] qh .
  qed
  from hook scope pass w m q fl cp none last runFns_stops [of pre w g e w' post]
  show ?thesis
    unfolding h by blast
qed

text \<open>
  C6 as stated fails: after a pass on host 0 that queues an effect that raises and then an
  effect logging 3, both effects are queued and the flush is pending; the checkpoint
  reports the error and leaves no microtask, and the log is still empty: the second
  effect has not run. Queued alone, the same effect has logged 3 by then.
\<close>

theorem effect_after_raise_counterexample:
  "queuedFns (afterPass [raisingEffect, logEffect 3]) (Given 0) = [raisingEffect, logEffect 3]
   \<and> microtasks (afterPass [raisingEffect, logEffect 3]) = [Given 0]
   \<and> fst (checkpoint (afterPass [raisingEffect, logEffect 3])) = [Error ''effect failed'']
   \<and> microtasks (snd (checkpoint (afterPass [raisingEffect, logEffect 3]))) = []
   \<and> world (snd (checkpoint (afterPass [raisingEffect, logEffect 3]))) = []
   \<and> world (snd (checkpoint (afterPass [logEffect 3]))) = [3]"
  by (simp add: afterPass_eq checkpoint_def flush_def run_def queuedFns_def queued_def
      logEffect_def raisingEffect_def inScope_def logModule_def initialState_def)

lemma onePending_eq:
  "onePending =
     (inScope (Given 2) logModule)\<lparr>effectMap :=
         [Given 2 \<mapsto> [\<lparr>effect_function = logEffect 5, cleanup = None\<rparr>]],
       microtasks := [Given 2], currentRenderElement := None\<rparr>"
proof -
  have cur: "currentRenderElement (inScope (Given 2) logModule) = Some (Given 2)"
    by (simp add: inScope_def)
  have "defaultHost (Some 2) logModule = (Given 2, logModule)"
    by (simp add: defaultHost_def)
  then show ?thesis
    by (simp add: onePending_def withFunctional_eq useEffects_eq [OF cur])
       (simp add: inScope_def logModule_def initialState_def queued_def)
qed

theorem effects_run_at_checkpoint_in_hook_order_witness:
  "microtasks onePending = [Given 2] \<and> Given 0 \<notin> set (microtasks onePending)
   \<and> world twoPending = []
   \<and> microtasks twoPending = [Given 2, Given 0]
   \<and> queuedFns twoPending (Given 0) = [logEffect 2, logEffect 3]
   \<and> world (snd (checkpoint twoPending)) = [5, 2, 3]
   \<and> microtasks (snd (checkpoint twoPending)) = []
   \<and> fst (runFns [] ([] :: nat list)) = Inr ()
   \<and> raisingEffect (snd (runFns [] [])) = (Inl (Error ''effect failed''), [])
   \<and> runFns ([] @ raisingEffect # [logEffect 3]) [] = (Inl (Error ''effect failed''), [])"
proof -
  let ?fs = "[logEffect 2, logEffect 3]"
  have pending: "microtasks onePending = [Given 2]" and w0: "world onePending = []"
    and q0: "queuedFns onePending (Given 0) = []"
    and q1: "queuedFns onePending (Given 2) = [logEffect 5]"
    by (simp_all add: onePending_eq queuedFns_def queued_def inScope_def logModule_def
        initialState_def)
  have other: "Given 0 \<notin> set (microtasks onePending)"
    by (simp add: pending)
  have stop1: "fst (runFns [] ([] :: nat list)) = Inr ()"
    and stop2: "raisingEffect (snd (runFns [] [])) = (Inl (Error ''effect failed''), [])"
    by (simp_all add: raisingEffect_def)
  note t = effects_run_at_checkpoint_in_hook_order
         [where f = "logEffect 2" and s = onePending and fs = ?fs
            and r = "useEffects ?fs" and hostArg = "Some 0" and pre = "[]" and w = "[]"
            and g = raisingEffect and e = "Error ''effect failed''" and w' = "[]"
            and post = "[logEffect 3]"]
  have host: "passHost (Some 0) onePending = Given 0"
    by (simp add: passHost_def defaultHost_def)
  from t [unfolded host] obtain s' where pass: "withFunctional (useEffects ?fs) (Some 0) onePending = (Inr (), s')"
    and w: "world s' = world onePending"
    and m: "microtasks s' = microtasks onePending @ [Given 0]"
    and q: "queuedFns s' = (queuedFns onePending)(Given 0 := queuedFns onePending (Given 0) @ ?fs)"
    and none: "microtasks (snd (checkpoint s')) = []"
    and cp: "Given 0 \<notin> set (microtasks onePending) \<longrightarrow>
                 world (snd (checkpoint s'))
                   = snd (runFns (queuedFns onePending (Given 0) @ ?fs)
                           (snd (drainFns (microtasks onePending) (queuedFns s') (world onePending))))"
    by blast
  have s': "twoPending = s'"
    by (simp only: twoPending_def pass snd_conv)
  have qs1: "queuedFns s' (Given 2) = [logEffect 5]"
    by (simp add: q q1)
  have "world (snd (checkpoint s')) = [5, 2, 3]"
    using cp other by (simp add: pending w0 q0 qs1 logEffect_def)
  moreover have "queuedFns s' (Given 0) = ?fs"
    by (simp add: q q0)
  moreover from t stop1 stop2
  have "runFns ([] @ raisingEffect # [logEffect 3]) [] = (Inl (Error ''effect failed''), [])"
    by blast
  ultimately show ?thesis
    using pending other w m none stop1 stop2 unfolding s' by (simp add: w0)
qed

text \<open>
  C3, as amended. A flush of host \<open>h\<close> calls the queued effect functions in order up to the
  first that raises. When one raises, the functions after it are not called, the flush
  raises, and the queue of \<open>h\<close> is not cleared: it still holds the same effect functions,
  so the next flush of \<open>h\<close> calls them again from the first. The queue is cleared when
  every run of the flush has returned.
\<close>

theorem raising_effect_leaves_queue:
  assumes "effectMap s h = Some q"
  shows "(fst (flush h s), world (snd (flush h s))) = runFns (map effect_function q) (world s)
       \<and> (case fst (flush h s) of
             Inr u \<Rightarrow> effectMap (snd (flush h s)) h = None
           | Inl e \<Rightarrow>
               effectMap (snd (flush h s)) h \<noteq> None
               \<and> map effect_function (queued (snd (flush h s)) h) = map effect_function q
               \<and> (fst (flush h (snd (flush h s))), world (snd (flush h (snd (flush h s)))))
                    = runFns (map effect_function q) (world (snd (flush h s))))
       \<and> (fst (runFns pre w) = Inr () \<and> f (snd (runFns pre w)) = (Inl e, w')
            \<longrightarrow> runFns (pre @ f # post) w = (Inl e, w'))"
proof -
  have first: "(fst (flush h s), world (snd (flush h s)))
      = runFns (map effect_function q) (world s)"
    using flush_world [of h s] by (simp add: queued_Some [OF assms])
  have second: "(case fst (flush h s) of
             Inr u \<Rightarrow> effectMap (snd (flush h s)) h = None
           | Inl e \<Rightarrow>
               effectMap (snd (flush h s)) h \<noteq> None
               \<and> map effect_function (queued (snd (flush h s)) h) = map effect_function q
               \<and> (fst (flush h (snd (flush h s))), world (snd (flush h (snd (flush h s)))))
                    = runFns (map effect_function q) (world (snd (flush h s))))"
  proof (cases "fst (runFns (map effect_function q) (world s))")
    case (Inl e)
    from flush_raises [OF assms Inl] obtain q' where
      m: "map effect_function q' = map effect_function q"
      and fl: "flush h s =
            (Inl e, s\<lparr>world := snd (runFns (map effect_function q) (world s)),
                      effectMap := (effectMap s)(h \<mapsto> q')\<rparr>)"
      by blast
    have kept: "effectMap (snd (flush h s)) h = Some q'"
      by (simp add: fl)
    then have "queued (snd (flush h s)) h = q'"
      by (rule queued_Some)
    with flush_world [of h "snd (flush h s)"] m kept fl show ?thesis
      by simp
  next
    case (Inr u)
    from flush_returns [OF assms Inr] show ?thesis
      by simp
  qed
  from first second runFns_stops [of pre w f e w' post] show ?thesis
    by blast
qed

text \<open>
  C3 as stated fails: after a pass that queues an effect logging 2, an effect that raises
  and an effect logging 3, the checkpoint reports the error, has run only the first
  effect, and leaves the three records queued; after a later pass on the same host that
  queues nothing, the next checkpoint runs the first effect a second time.
\<close>

theorem failed_flush_keeps_queue_counterexample:
  "fst (checkpoint (afterPass [logEffect 2, raisingEffect, logEffect 3]))
     = [Error ''effect failed'']
   \<and> world failedFlush = [2]
   \<and> map effect_function (queued failedFlush (Given 0)) = [logEffect 2, raisingEffect, logEffect 3]
   \<and> \<not> effectMap failedFlush (Given 0) = None
   \<and> world laterFlush = [2, 2]"
proof -
  have "fst (checkpoint (afterPass [logEffect 2, raisingEffect, logEffect 3]))
     = [Error ''effect failed'']"
    by (simp add: afterPass_eq checkpoint_def flush_def run_def
      logEffect_def raisingEffect_def inScope_def logModule_def initialState_def)
  moreover have "world laterFlush = [2, 2]"
    by (simp add: laterFlush_def failedFlush_eq withFunctional_def defaultHost_def
      checkpoint_def flush_def run_def
      logEffect_def raisingEffect_def inScope_def logModule_def initialState_def)
  ultimately show ?thesis
    by (simp add: failedFlush_eq queued_def)
qed

theorem raising_effect_leaves_queue_witness:
  "effectMap (afterPass [logEffect 2, raisingEffect, logEffect 3]) (Given 0)
     = Some (map (\<lambda>f. \<lparr>effect_function = f, cleanup = None\<rparr>)
               [logEffect 2, raisingEffect, logEffect 3])
   \<and> fst (flush (Given 0) (afterPass [logEffect 2, raisingEffect, logEffect 3]))
       = Inl (Error ''effect failed'')
   \<and> world (snd (flush (Given 0) (afterPass [logEffect 2, raisingEffect, logEffect 3]))) = [2]
   \<and> effectMap (snd (flush (Given 0) (afterPass [logEffect 2, raisingEffect, logEffect 3]))) (Given 0) \<noteq> None
   \<and> world (snd (flush (Given 0) (snd (flush (Given 0) (afterPass [logEffect 2, raisingEffect, logEffect 3])))))
       = [2, 2]
   \<and> effectMap (snd (flush (Given 0) (afterPass [logEffect 2, logEffect 3]))) (Given 0) = None
   \<and> fst (runFns [logEffect 2] []) = Inr ()
   \<and> raisingEffect (snd (runFns [logEffect 2] [])) = (Inl (Error ''effect failed''), [2])
   \<and> runFns ([logEffect 2] @ raisingEffect # [logEffect 3]) []
       = (Inl (Error ''effect failed''), [2])"
proof -
  let ?fs = "[logEffect 2, raisingEffect, logEffect 3]"
  let ?q = "map (\<lambda>f. \<lparr>effect_function = f, cleanup = None\<rparr>) ?fs"
  let ?s = "afterPass ?fs"
  let ?q2 = "map (\<lambda>f. \<lparr>effect_function = f, cleanup = None\<rparr>) [logEffect 2, logEffect 3]"
  let ?s2 = "afterPass [logEffect 2, logEffect 3]"
  have queue: "effectMap ?s (Given 0) = Some ?q"
    by (simp add: afterPass_eq)
  have fns: "map effect_function ?q = ?fs"
    by simp
  have w: "world ?s = []"
    by (simp add: afterPass_eq inScope_def logModule_def initialState_def)
  have r1: "runFns ?fs [] = (Inl (Error ''effect failed''), [2])"
    and r2: "runFns ?fs [2] = (Inl (Error ''effect failed''), [2, 2])"
    by (simp_all add: logEffect_def raisingEffect_def)
  note t = raising_effect_leaves_queue [OF queue, of "[logEffect 2]" "[]" raisingEffect
      "Error ''effect failed''" "[2]" "[logEffect 3]", unfolded fns w r1]
  from t have a: "fst (flush (Given 0) ?s) = Inl (Error ''effect failed'')"
    and b: "world (snd (flush (Given 0) ?s)) = [2]"
    by simp_all
  from t a have c: "effectMap (snd (flush (Given 0) ?s)) (Given 0) \<noteq> None"
    and d: "(fst (flush (Given 0) (snd (flush (Given 0) ?s))), world (snd (flush (Given 0) (snd (flush (Given 0) ?s)))))
                    = runFns ?fs (world (snd (flush (Given 0) ?s)))"
    by simp_all
  from d have e: "world (snd (flush (Given 0) (snd (flush (Given 0) ?s)))) = [2, 2]"
    unfolding b r2 by simp
  have queue2: "effectMap ?s2 (Given 0) = Some ?q2"
    by (simp add: afterPass_eq)
  have w2: "world ?s2 = []"
    by (simp add: afterPass_eq inScope_def logModule_def initialState_def)
  have r3: "runFns (map effect_function ?q2) [] = (Inr (), [2, 3])"
    by (simp add: logEffect_def)
  note t2 = raising_effect_leaves_queue [OF queue2, of "[]" "[]" raisingEffect
      "Error ''effect failed''" "[]" "[]", unfolded w2 r3]
  from t2 have ok: "fst (flush (Given 0) ?s2) = Inr ()"
    by simp
  from t2 have f: "effectMap (snd (flush (Given 0) ?s2)) (Given 0) = None"
    unfolding ok by simp
  have g: "fst (runFns [logEffect 2] []) = Inr ()"
    and h: "raisingEffect (snd (runFns [logEffect 2] [])) = (Inl (Error ''effect failed''), [2])"
    by (simp_all add: logEffect_def raisingEffect_def)
  from raising_effect_leaves_queue [OF queue, of "[logEffect 2]" "[]" raisingEffect
      "Error ''effect failed''" "[2]" "[logEffect 3]"] g h
  have i: "runFns ([logEffect 2] @ raisingEffect # [logEffect 3]) []
       = (Inl (Error ''effect failed''), [2])"
    by blast
  from queue a b c e f g h i show ?thesis
    by (intro conjI)
qed

text \<open>
  C4 on a pass that queues an effect returning a cleanup and then a second effect: the run
  of the first record stores the returned callable on the second, the last record of the
  queue, and the first record has no cleanup. The same holds for \<open>onCleanup\<close>, whose
  callable is not called by the flush (99 is never logged).
\<close>

theorem cleanup_lands_on_last_record:
  "map cleanup (queued (afterPass [cleanupEffect 2, logEffect 3]) (Given 0)) = [None, None]
   \<and> fst (run 0 (Given 0) (afterPass [cleanupEffect 2, logEffect 3])) = Inr ()
   \<and> map cleanup (queued (snd (run 0 (Given 0) (afterPass [cleanupEffect 2, logEffect 3]))) (Given 0))
       = [None, Some logCleanup]
   \<and> world (snd (run 0 (Given 0) (afterPass [cleanupEffect 2, logEffect 3]))) = [2]
   \<and> map cleanup (queued (snd (run 0 (Given 0) afterCleanupPass)) (Given 0)) = [None, Some logCleanup]
   \<and> world (snd (checkpoint afterCleanupPass)) = [3]"
  by (simp add: afterPass_eq afterCleanupPass_def withFunctional_def defaultHost_def
      onCleanup_def useEffect_def guard_def checkpoint_def flush_def
      run_def queued_def cleanupEffect_def logEffect_def inScope_def logModule_def
      initialState_def)

section \<open>Slots of the local-state hook\<close>




lemma useState_empty:
  assumes "currentRenderElement s = Some h"
    and "slot s h (slot_of (indexMap s h)) = None"
    and "Signal s = Inr m"
  shows "\<exists>s'. useState v s = (Inr (nextCell s), s')
           \<and> slot s' = (slot s)(h := (slot s h)(slot_of (indexMap s h) \<mapsto> nextCell s))
           \<and> nextCell s' = nextCell s + 1
           \<and> signals s' = (signals s)(nextCell s \<mapsto> StateObj m v)
           \<and> indexMap s' = (indexMap s)(h \<mapsto> plus_one (indexMap s h))
           \<and> currentRenderElement s' = Some h"
proof (cases "storeMap s h")
  case None
  let ?s1 = "s\<lparr>storeMap := (storeMap s)(h \<mapsto> Map.empty)\<rparr>"
  let ?s2 = "?s1\<lparr>indexMap := (indexMap s)(h \<mapsto> plus_one (indexMap s h))\<rparr>"
  have sig: "Signal ?s2 = Inr m"
    using assms(3) by (simp add: Signal_def split: option.splits)
  have "useState v s = (Inr (nextCell s),
      (snd (alloc (StateObj m v) ?s2))\<lparr>storeMap := (storeMap s)(h \<mapsto>
           [slot_of (indexMap s h) \<mapsto> nextCell s])\<rparr>)"
    by (simp add: useState_def guard_def assms(1) None Let_def newState_def sig)
       (simp add: alloc_def)
  moreover have "slot ((snd (alloc (StateObj m v) ?s2))\<lparr>storeMap := (storeMap s)(h \<mapsto>
           [slot_of (indexMap s h) \<mapsto> nextCell s])\<rparr>)
       = (slot s)(h := (slot s h)(slot_of (indexMap s h) \<mapsto> nextCell s))"
    using None by (auto simp: slot_def fun_eq_iff)
  ultimately show ?thesis
    by (simp add: alloc_def assms(1))
next
  case (Some st)
  let ?s2 = "s\<lparr>indexMap := (indexMap s)(h \<mapsto> plus_one (indexMap s h))\<rparr>"
  have empty: "st (slot_of (indexMap s h)) = None"
    using assms(2) Some by (simp add: slot_def)
  have sig: "Signal ?s2 = Inr m"
    using assms(3) by (simp add: Signal_def split: option.splits)
  have "useState v s = (Inr (nextCell s),
      (snd (alloc (StateObj m v) ?s2))\<lparr>storeMap := (storeMap s)(h \<mapsto>
           st(slot_of (indexMap s h) \<mapsto> nextCell s))\<rparr>)"
    by (simp add: useState_def guard_def assms(1) Some empty Let_def newState_def sig)
       (simp add: alloc_def Some)
  moreover have "slot ((snd (alloc (StateObj m v) ?s2))\<lparr>storeMap := (storeMap s)(h \<mapsto>
           st(slot_of (indexMap s h) \<mapsto> nextCell s))\<rparr>)
       = (slot s)(h := (slot s h)(slot_of (indexMap s h) \<mapsto> nextCell s))"
    using Some by (auto simp: slot_def fun_eq_iff)
  ultimately show ?thesis
    by (simp add: alloc_def assms(1))
qed



lemma slot_same: "storeMap t = storeMap s \<Longrightarrow> slot t = slot s"
  by (simp add: slot_def fun_eq_iff)

lemma storesOK_same:
  "slot t = slot s \<Longrightarrow> nextCell t = nextCell s \<Longrightarrow> storesOK t = storesOK s"
  by (simp add: storesOK_def)

lemma slotsKept_same: "slot t = slot s \<Longrightarrow> slotsKept s t"
  by (simp add: slotsKept_def)

lemma keepsStores_same:
  assumes "\<And>s. storeMap (snd (r s)) = storeMap s" and "\<And>s. nextCell (snd (r s)) = nextCell s"
  shows "keepsStores r"
  unfolding keepsStores_def
proof (intro allI conjI impI)
  fix s
  have sl: "slot (snd (r s)) = slot s"
    by (rule slot_same) (rule assms(1))
  show "slotsKept s (snd (r s))"
    using sl by (rule slotsKept_same)
  assume "storesOK s"
  then show "storesOK (snd (r s))"
    using storesOK_same [OF sl assms(2)] by simp
qed



lemma useState_other_host:
  assumes "currentRenderElement s = Some h" and "g \<noteq> h"
  shows "storeMap (snd (useState v s)) g = storeMap s g
       \<and> indexMap (snd (useState v s)) g = indexMap s g
       \<and> indexMap (snd (useState v s)) h = Some (plus_one (indexMap s h))"
  using assms
  by (auto simp: useState_def guard_def Let_def newState_def alloc_def
      split: option.splits sum.splits)



text \<open>What keeps the stores: the flush, the checkpoint, the hooks and the render scope.\<close>

lemma flush_stores:
  "storeMap (snd (flush h s)) = storeMap s \<and> nextCell (snd (flush h s)) = nextCell s
   \<and> signals (snd (flush h s)) = signals s"
proof (cases "effectMap s h")
  case None
  then show ?thesis by (simp add: flush_None)
next
  case (Some q)
  show ?thesis
  proof (cases "fst (runFns (map effect_function q) (world s))")
    case (Inl e)
    with flush_raises [OF Some, of e] show ?thesis by auto
  next
    case (Inr u)
    with flush_returns [OF Some, of u] show ?thesis by simp
  qed
qed



lemma keepsStores_flush: "keepsStores (flush h)"
  by (rule keepsStores_same) (simp_all add: flush_stores)

lemma keepsStores_useEffect: "keepsStores (useEffect f)"
  by (rule keepsStores_same)
     (simp_all add: useEffect_def guard_def Let_def split: option.splits)

lemma keepsStores_provideContext: "keepsStores (provideContext key c)"
  by (rule keepsStores_same)
     (simp_all add: provideContext_def guard_def Let_def split: option.splits)

lemma keepsStores_useContext: "keepsStores (useContext key)"
  by (rule keepsStores_same)
     (simp_all add: useContext_def guard_def Let_def split: option.splits)

lemma keepsStores_withFunctional:
  assumes "keepsStores r"
  shows "keepsStores (withFunctional r hostArg)"
  unfolding keepsStores_def
proof (intro allI)
  fix s :: "('a, 'b) fstate"
  obtain h s0 where arg: "defaultHost hostArg s = (h, s0)"
    by (cases "defaultHost hostArg s")
  then have s0: "storeMap s0 = storeMap s" "nextCell s0 = nextCell s"
    by (auto simp: defaultHost_def newHost_def split: option.splits)
  let ?in = "inScope h s0"
  have sl_in: "slot ?in = slot s"
    by (rule slot_same) (simp add: inScope_def s0)
  have nc_in: "nextCell ?in = nextCell s"
    by (simp add: inScope_def s0)
  obtain res s4 where body: "r ?in = (res, s4)"
    by (cases "r ?in")
  let ?out = "snd (withFunctional r hostArg s)"
  have out: "storeMap ?out = storeMap s4 \<and> nextCell ?out = nextCell s4"
    by (cases res) (simp_all add: withFunctional_eq [OF arg] body)
  then have nc_out: "nextCell ?out = nextCell s4"
    by simp
  have sl_out: "slot ?out = slot s4"
    by (rule slot_same) (simp add: out)
  have "slotsKept ?in (snd (r ?in))" and "storesOK ?in \<longrightarrow> storesOK (snd (r ?in))"
    using assms unfolding keepsStores_def by blast+
  then have k: "slotsKept ?in s4" and o: "storesOK ?in \<longrightarrow> storesOK s4"
    by (simp_all add: body)
  have "slotsKept s ?out"
    using k by (simp add: slotsKept_def sl_in sl_out)
  moreover have "storesOK s \<longrightarrow> storesOK ?out"
    using o storesOK_same [OF sl_in nc_in] storesOK_same [OF sl_out nc_out] by simp
  ultimately show "slotsKept s ?out \<and> (storesOK s \<longrightarrow> storesOK ?out)"
    by simp
qed




section \<open>The default hosts stay in order\<close>

lemma Signal_same:
  "manualSignalCtor t = manualSignalCtor s \<Longrightarrow> globalSignal t = globalSignal s \<Longrightarrow>
   Signal t = Signal s"
  by (simp add: Signal_def split: option.splits)

lemma Provider_eq:
  assumes "Signal s = Inr m"
  shows "Provider ctx children v s =
           (case children (providerScope ctx v m s) of
              (Inr r, t) \<Rightarrow>
                (Inr r, t\<lparr>microtasks := microtasks t @ [Default (nextHost s)],
                          currentRenderElement := currentRenderElement s\<rparr>)
            | (Inl e, t) \<Rightarrow> (Inl e, t\<lparr>currentRenderElement := currentRenderElement s\<rparr>))"
  by (simp add: Provider_def newState_def assms alloc_def withFunctional_def defaultHost_def
      newHost_def provideContext_def guard_def providerScope_def Let_def
      split: prod.splits sum.splits)

lemma hostsOK_initialState: "hostsOK (initialState g w)"
  by (simp add: hostsOK_def initialState_def)

lemma hostsOK_ctor: "hostsOK s \<Longrightarrow> hostsOK (s\<lparr>manualSignalCtor := c\<rparr>)"
  by (simp add: hostsOK_def)

lemma hostsOK_inScope:
  assumes "hostsOK s" and "\<And>k. nextHost s \<le> k \<Longrightarrow> h \<noteq> Default k"
  shows "hostsOK (inScope h s)"
  using assms by (auto simp: hostsOK_def inScope_def)

lemma hostsOK_newHost:
  assumes "hostsOK s"
  shows "hostsOK (inScope (fst (newHost s)) (snd (newHost s)))"
  using assms by (auto simp: hostsOK_def inScope_def newHost_def)

lemma hostsOK_defaultHost:
  assumes "hostsOK s"
  shows "hostsOK (inScope (fst (defaultHost hostArg s)) (snd (defaultHost hostArg s)))
       \<and> nextHost s \<le> nextHost (snd (defaultHost hostArg s))
       \<and> (\<forall>k. nextHost (snd (defaultHost hostArg s)) \<le> k \<longrightarrow>
             fst (defaultHost hostArg s) \<noteq> Default k)"
  using assms
  by (cases hostArg) (auto simp: hostsOK_def inScope_def newHost_def defaultHost_def)

lemma keepsHosts_useState: "keepsHosts (useState v)"
  unfolding keepsHosts_def hostsOK_def
  by (auto simp: useState_def guard_def Let_def newState_def alloc_def
      split: option.splits sum.splits)

lemma keepsHosts_useEffect: "keepsHosts (useEffect f)"
  unfolding keepsHosts_def hostsOK_def
  by (auto simp: useEffect_def guard_def Let_def split: option.splits)

lemma keepsHosts_provideContext: "keepsHosts (provideContext key c)"
  unfolding keepsHosts_def hostsOK_def
  by (auto simp: provideContext_def guard_def Let_def split: option.splits)

lemma keepsHosts_useContext: "keepsHosts (useContext key)"
  unfolding keepsHosts_def hostsOK_def
  by (auto simp: useContext_def guard_def Let_def split: option.splits)

lemma keepsHosts_withFunctional:
  assumes "keepsHosts r"
  shows "keepsHosts (withFunctional r hostArg)"
  unfolding keepsHosts_def
proof (intro allI impI)
  fix s :: "('a, 'b) fstate"
  assume ok: "hostsOK s"
  obtain h s0 where d: "defaultHost hostArg s = (h, s0)"
    by (cases "defaultHost hostArg s")
  from hostsOK_defaultHost [OF ok, of hostArg] d
  have in_ok: "hostsOK (inScope h s0)" and le: "nextHost s \<le> nextHost s0"
    and fresh: "\<And>k. nextHost s0 \<le> k \<Longrightarrow> h \<noteq> Default k"
    by simp_all
  have cur: "currentRenderElement s0 = currentRenderElement s"
    using d by (cases hostArg) (auto simp: defaultHost_def newHost_def)
  obtain res s4 where r: "r (inScope h s0) = (res, s4)"
    by (cases "r (inScope h s0)")
  from assms in_ok r have ok4: "hostsOK s4" and le4: "nextHost (inScope h s0) \<le> nextHost s4"
    by (auto simp: keepsHosts_def)
  then have le': "nextHost s \<le> nextHost s4"
    using le by (simp add: inScope_def)
  have le0: "nextHost s0 \<le> nextHost s4"
    using le4 by (simp add: inScope_def)
  have prev: "currentRenderElement s \<noteq> Some (Default k)" if "nextHost s4 \<le> k" for k
    using ok le' that by (auto simp: hostsOK_def)
  have fresh4: "h \<noteq> Default k" if "nextHost s4 \<le> k" for k
    using fresh [of k] le0 that by simp
  have "hostsOK (s4\<lparr>currentRenderElement := currentRenderElement s\<rparr>)"
    using ok4 prev by (simp add: hostsOK_def)
  moreover have "hostsOK (s4\<lparr>microtasks := microtasks s4 @ [h],
                            currentRenderElement := currentRenderElement s\<rparr>)"
    using ok4 prev fresh4 by (auto simp: hostsOK_def)
  ultimately show "hostsOK (snd (withFunctional r hostArg s))
      \<and> nextHost s \<le> nextHost (snd (withFunctional r hostArg s))"
    using le' by (cases res) (simp_all add: withFunctional_eq d r cur)
qed

lemma hostsOK_flush:
  assumes "hostsOK s"
  shows "hostsOK (snd (flush h s)) \<and> nextHost (snd (flush h s)) = nextHost s"
proof (cases "effectMap s h")
  case None
  then show ?thesis using assms by (simp add: flush_None)
next
  case (Some q)
  from flush_run [OF Some] obtain q' where
    r: "runEach [0..<length q] h s =
            (fst (runFns (map effect_function q) (world s)),
             s\<lparr>world := snd (runFns (map effect_function q) (world s)),
               effectMap := (effectMap s)(h \<mapsto> q')\<rparr>)"
    by blast
  have ne: "h \<noteq> Default k" if "nextHost s \<le> k" for k
    using assms Some that by (auto simp: hostsOK_def)
  show ?thesis
    using assms ne by (auto simp: flush_def Some r hostsOK_def split: sum.splits)
qed

lemma hostsOK_drain:
  "hostsOK s \<Longrightarrow> hostsOK (snd (drain hs s)) \<and> nextHost (snd (drain hs s)) = nextHost s"
proof (induction hs arbitrary: s)
  case Nil
  then show ?case by simp
next
  case (Cons h hs)
  from hostsOK_flush [OF Cons.prems, of h]
  have "hostsOK (snd (flush h s))" and n: "nextHost (snd (flush h s)) = nextHost s"
    by simp_all
  from Cons.IH [OF this(1)] n show ?case
    by (simp only: drain_next)
qed

lemma hostsOK_checkpoint:
  assumes "hostsOK s"
  shows "hostsOK (snd (checkpoint s)) \<and> nextHost (snd (checkpoint s)) = nextHost s"
proof -
  have "hostsOK (s\<lparr>microtasks := []\<rparr>)"
    using assms by (simp add: hostsOK_def)
  from hostsOK_drain [OF this, of "microtasks s"] show ?thesis
    by (simp add: checkpoint_def)
qed

lemma hostsOK_providerScope:
  assumes "hostsOK s"
  shows "hostsOK (providerScope ctx v m s)"
  using assms by (auto simp: hostsOK_def providerScope_def)

lemma keepsHosts_Provider:
  assumes "keepsHosts children"
  shows "keepsHosts (Provider ctx children v)"
  unfolding keepsHosts_def
proof (intro allI impI)
  fix s :: "('a, 'b) fstate"
  assume ok: "hostsOK s"
  show "hostsOK (snd (Provider ctx children v s))
      \<and> nextHost s \<le> nextHost (snd (Provider ctx children v s))"
  proof (cases "Signal s")
    case (Inl e)
    then show ?thesis using ok by (simp add: Provider_def newState_def)
  next
    case (Inr m)
    let ?p = "providerScope ctx v m s"
    obtain res t where c: "children ?p = (res, t)"
      by (cases "children ?p")
    from assms hostsOK_providerScope [OF ok, of ctx v m] c
    have okt: "hostsOK t" and le: "nextHost ?p \<le> nextHost t"
      by (auto simp: keepsHosts_def)
    have le': "nextHost s < nextHost t"
      using le by (simp add: providerScope_def)
    have prev: "currentRenderElement s \<noteq> Some (Default k)" if "nextHost t \<le> k" for k
      using ok le' that by (auto simp: hostsOK_def)
    have "hostsOK (t\<lparr>currentRenderElement := currentRenderElement s\<rparr>)"
      using okt prev by (simp add: hostsOK_def)
    moreover have "hostsOK (t\<lparr>microtasks := microtasks t @ [Default (nextHost s)],
                              currentRenderElement := currentRenderElement s\<rparr>)"
      using okt prev le' by (auto simp: hostsOK_def)
    ultimately show ?thesis
      using le' by (cases res) (simp_all add: Provider_eq [OF Inr] c)
  qed
qed


lemma keepsHosts_useCallback: "keepsHosts (useCallback f)"
  unfolding keepsHosts_def hostsOK_def
  by (auto simp: useCallback_def guard_def newComputed_def alloc_def
      split: option.splits sum.splits)

lemma keepsHosts_useMemo: "keepsHosts (useMemo f)"
  unfolding keepsHosts_def hostsOK_def
  by (auto simp: useMemo_def guard_def newComputed_def alloc_def
      split: option.splits sum.splits)

lemma keepsHosts_useReducer: "keepsHosts (useReducer reducer v)"
  using keepsHosts_useState [of v] by (simp add: keepsHosts_def useReducer_def)

lemma keepsHosts_onMount: "keepsHosts (onMount f)"
  by (simp add: onMount_def keepsHosts_useEffect)

lemma keepsHosts_onCleanup: "keepsHosts (onCleanup f)"
  by (simp add: onCleanup_def keepsHosts_useEffect)

lemma keepsHosts_use: "keepsHosts (use ctx)"
  using keepsHosts_useContext [of "ctx_context ctx"] by (simp add: keepsHosts_def use_def)

lemma keepsHosts_createContext: "keepsHosts (createContext dv name)"
  unfolding keepsHosts_def hostsOK_def
  by (auto simp: createContext_def createContextKey_def Let_def newState_def alloc_def
      split: prod.splits sum.splits if_splits)

lemma hostsOK_sig_set: "hostsOK s \<Longrightarrow> hostsOK (sig_set a v s)"
  by (auto simp: hostsOK_def sig_set_def split: option.splits sigobj.splits)

lemma hostsOK_dispatch: "hostsOK s \<Longrightarrow> hostsOK (dispatch reducer a act s)"
  by (simp add: dispatch_def hostsOK_sig_set split: option.splits)

lemma keepsHosts_useStates: "keepsHosts (useStates vs)"
proof (induction vs)
  case Nil
  show ?case by (simp add: keepsHosts_def)
next
  case (Cons v vs)
  show ?case
    unfolding keepsHosts_def
  proof (intro allI impI)
    fix s :: "('a, 'b) fstate"
    assume ok: "hostsOK s"
    obtain r s' where u: "useState v s = (r, s')"
      by (cases "useState v s")
    from keepsHosts_useState [of v] ok u
    have ok': "hostsOK s'" and le: "nextHost s \<le> nextHost s'"
      by (auto simp: keepsHosts_def)
    obtain r2 s'' where u2: "useStates vs s' = (r2, s'')"
      by (cases "useStates vs s'")
    from Cons.IH ok' u2 have "hostsOK s''" and "nextHost s' \<le> nextHost s''"
      by (auto simp: keepsHosts_def)
    with ok' le show "hostsOK (snd (useStates (v # vs) s))
        \<and> nextHost s \<le> nextHost (snd (useStates (v # vs) s))"
      by (cases r; cases r2) (simp_all add: u u2)
  qed
qed

lemma keepsHosts_useEffects: "keepsHosts (useEffects fs)"
proof (induction fs)
  case Nil
  show ?case by (simp add: keepsHosts_def)
next
  case (Cons f fs)
  show ?case
    unfolding keepsHosts_def
  proof (intro allI impI)
    fix s :: "('a, 'b) fstate"
    assume ok: "hostsOK s"
    obtain r s' where u: "useEffect f s = (r, s')"
      by (cases "useEffect f s")
    from keepsHosts_useEffect [of f] ok u
    have ok': "hostsOK s'" and le: "nextHost s \<le> nextHost s'"
      by (auto simp: keepsHosts_def)
    from Cons.IH ok' have "hostsOK (snd (useEffects fs s'))"
      and "nextHost s' \<le> nextHost (snd (useEffects fs s'))"
      by (auto simp: keepsHosts_def)
    with ok' le show "hostsOK (snd (useEffects (f # fs) s))
        \<and> nextHost s \<le> nextHost (snd (useEffects (f # fs) s))"
      by (cases r) (simp_all add: u)
  qed
qed

section \<open>The scope opened by a Provider\<close>

text \<open>
  C1, as amended. A \<open>Provider\<close> called during a render pass on host \<open>H\<close> (with a
  constructor available, the default hosts in order) calls \<open>withFunctional\<close> without a
  host, so the scope it opens is on a host \<open>F\<close> that the default parameter creates by
  the call. \<open>F\<close> is not \<open>H\<close>, and before the call \<open>F\<close> owns no store, context stack,
  effect queue or cursor and is awaited by no microtask. \<open>children\<close> run with \<open>F\<close>
  current and the default hosts still in order; the context stack of \<open>F\<close> holds the one
  frame binding the key to the new cell, and the context stack, cursor, store and effect
  queue of \<open>H\<close> are as they were. Inside \<open>children\<close>, \<open>useContext\<close> of the key returns
  the new cell, \<open>useState\<close> returns a new cell kept in slot 0 of \<open>F\<close> and leaves the store
  and cursor of \<open>H\<close> alone, and \<open>useEffect\<close> starts the queue of \<open>F\<close>. When \<open>children\<close>
  return, \<open>H\<close> is current again and a flush for \<open>F\<close> has been queued; after a
  \<open>Provider\<close> whose children do nothing, \<open>useContext\<close> on \<open>H\<close> gives what it gave
  before the \<open>Provider\<close>.
\<close>

theorem Provider_scope_is_on_a_new_host:
  assumes "currentRenderElement s = Some H" and "hostsOK s" and "Signal s = Inr m"
  shows "Provider ctx children v s =
           (case children (providerScope ctx v m s) of
              (Inr r, t) \<Rightarrow>
                (Inr r, t\<lparr>microtasks := microtasks t @ [Default (nextHost s)],
                          currentRenderElement := Some H\<rparr>)
            | (Inl e, t) \<Rightarrow> (Inl e, t\<lparr>currentRenderElement := Some H\<rparr>))
       \<and> currentRenderElement (providerScope ctx v m s) = Some (Default (nextHost s))
       \<and> Default (nextHost s) \<noteq> H
       \<and> storeMap s (Default (nextHost s)) = None
       \<and> contextStackMap s (Default (nextHost s)) = None
       \<and> effectMap s (Default (nextHost s)) = None
       \<and> indexMap s (Default (nextHost s)) = None
       \<and> Default (nextHost s) \<notin> set (microtasks s)
       \<and> hostsOK (providerScope ctx v m s)
       \<and> contextStackMap (providerScope ctx v m s) (Default (nextHost s))
            = Some [[key_id (ctx_context ctx) \<mapsto> nextCell s]]
       \<and> contextStackMap (providerScope ctx v m s) H = contextStackMap s H
       \<and> storeMap (providerScope ctx v m s) = storeMap s
       \<and> indexMap (providerScope ctx v m s) H = indexMap s H
       \<and> effectMap (providerScope ctx v m s) = effectMap s
       \<and> useContext (ctx_context ctx) (providerScope ctx v m s)
            = (Inr (nextCell s), providerScope ctx v m s)
       \<and> fst (useState x (providerScope ctx v m s)) = Inr (nextCell s + 1)
       \<and> slot (snd (useState x (providerScope ctx v m s))) (Default (nextHost s)) (At 0)
            = Some (nextCell s + 1)
       \<and> storeMap (snd (useState x (providerScope ctx v m s))) H = storeMap s H
       \<and> indexMap (snd (useState x (providerScope ctx v m s))) H = indexMap s H
       \<and> indexMap (snd (useState x (providerScope ctx v m s))) (Default (nextHost s))
            = Some (Idx 1)
       \<and> effectMap (snd (useEffect f (providerScope ctx v m s))) H = effectMap s H
       \<and> queuedFns (snd (useEffect f (providerScope ctx v m s))) (Default (nextHost s)) = [f]
       \<and> currentRenderElement (snd (Provider ctx (\<lambda>t. (Inr (), t)) v s)) = Some H
       \<and> fst (useContext key (snd (Provider ctx (\<lambda>t. (Inr (), t)) v s)))
            = fst (useContext key s)"
proof -
  let ?F = "Default (nextHost s)"
  let ?p = "providerScope ctx v m s"
  have cur: "currentRenderElement ?p = Some ?F"
    by (simp add: providerScope_def)
  have new: "storeMap s ?F = None" "contextStackMap s ?F = None" "effectMap s ?F = None"
    "indexMap s ?F = None" "?F \<notin> set (microtasks s)" "currentRenderElement s \<noteq> Some ?F"
    using assms(2) by (simp_all add: hostsOK_def)
  have ne: "?F \<noteq> H"
    using new(6) assms(1) by auto
  have ok: "hostsOK ?p"
    using assms(2) by (rule hostsOK_providerScope)
  have eq: "Provider ctx c v s =
           (case c ?p of
              (Inr r, t) \<Rightarrow>
                (Inr r, t\<lparr>microtasks := microtasks t @ [?F],
                          currentRenderElement := Some H\<rparr>)
            | (Inl e, t) \<Rightarrow> (Inl e, t\<lparr>currentRenderElement := Some H\<rparr>))"
    for c :: "('a, 'b, 'd) op"
    by (simp add: Provider_eq [OF assms(3)] assms(1) split: prod.splits sum.splits)
  have ctx: "useContext (ctx_context ctx) ?p = (Inr (nextCell s), ?p)"
    by (simp add: useContext_eq [OF cur] inTopFrame_def topFrame_def)
       (simp add: providerScope_def)
  have "Signal ?p = Signal s"
    by (rule Signal_same) (simp_all add: providerScope_def)
  then have sig: "Signal ?p = Inr m"
    using assms(3) by simp
  have empty: "slot ?p ?F (slot_of (indexMap ?p ?F)) = None"
    using new(1) by (simp add: slot_def providerScope_def)
  from useState_empty [OF cur empty sig, of x] obtain s' where
    us: "useState x ?p = (Inr (nextCell ?p), s')"
    and sl: "slot s' = (slot ?p)(?F := (slot ?p ?F)(slot_of (indexMap ?p ?F) \<mapsto> nextCell ?p))"
    by blast
  have cell: "fst (useState x ?p) = Inr (nextCell s + 1)"
    by (simp add: us) (simp add: providerScope_def)
  have kept: "slot (snd (useState x ?p)) ?F (At 0) = Some (nextCell s + 1)"
    by (simp add: us sl) (simp add: providerScope_def)
  have other: "storeMap (snd (useState x ?p)) H = storeMap s H"
    "indexMap (snd (useState x ?p)) H = indexMap s H"
    "indexMap (snd (useState x ?p)) ?F = Some (Idx 1)"
    using useState_other_host [OF cur, of H x] ne
    by (simp_all add: providerScope_def)
  have eff: "effectMap (snd (useEffect f ?p)) H = effectMap s H"
    "queuedFns (snd (useEffect f ?p)) ?F = [f]"
    unfolding useEffect_eq [OF cur]
    using ne new(3) by (simp_all add: queuedFns_def queued_def providerScope_def)
  have scope: "contextStackMap ?p ?F = Some [[key_id (ctx_context ctx) \<mapsto> nextCell s]]"
    "contextStackMap ?p H = contextStackMap s H"
    "storeMap ?p = storeMap s" "indexMap ?p H = indexMap s H"
    "effectMap ?p = effectMap s"
    using ne by (simp_all add: providerScope_def)
  let ?q = "snd (Provider ctx (\<lambda>t. (Inr (), t)) v s)"
  have q: "?q = ?p\<lparr>microtasks := microtasks ?p @ [?F], currentRenderElement := Some H\<rparr>"
    by (simp add: eq)
  have again: "currentRenderElement ?q = Some H"
    by (simp add: q)
  have "contextStackMap ?q H = contextStackMap s H"
    using ne by (simp add: q providerScope_def)
  then have same: "fst (useContext key ?q) = fst (useContext key s)"
    by (simp add: useContext_eq [OF again] useContext_eq [OF assms(1)]
        inTopFrame_def topFrame_def split: option.splits)
  from eq [of children] cur ne new(1-5) ok scope ctx cell kept other eff again same
  show ?thesis
    by (intro conjI)
qed

text \<open>
  C1 as stated fails: in a render pass on the user's host 0, children that read the
  current host get the first host made by the default parameter, not host 0; the frame is
  on the stack of that host and the stack of host 0 is still empty. After a \<open>Provider\<close>
  whose children do nothing, \<open>useContext\<close> of the key on host 0 finds no frame.
\<close>

theorem Provider_same_host_counterexample:
  "currentRenderElement bothCtors = Some (Given 0)
   \<and> fst (Provider exampleContext readHost Undefined bothCtors) = Inr (Some (Default 0))
   \<and> contextStackMap (snd (Provider exampleContext readHost Undefined bothCtors)) (Given 0)
       = Some []
   \<and> contextStackMap (snd (Provider exampleContext readHost Undefined bothCtors)) (Default 0)
       = Some [[Symbol 0 ''Context'' \<mapsto> 0]]
   \<and> currentRenderElement (snd (Provider exampleContext readHost Undefined bothCtors))
       = Some (Given 0)
   \<and> fst (useContext (exampleKey None)
            (snd (Provider exampleContext (\<lambda>t. (Inr (), t)) Undefined bothCtors)))
       = Inl (missingContext (exampleKey None))"
  by (simp add: Provider_def newState_def Signal_def alloc_def withFunctional_def
      defaultHost_def newHost_def provideContext_def guard_def readHost_def
      exampleContext_def exampleKey_def nullish_def bothCtors_def initialState_def
      inScope_def useContext_def Let_def)

theorem Provider_scope_is_on_a_new_host_witness:
  "currentRenderElement earlierPass = Some (Given 0) \<and> hostsOK earlierPass
   \<and> Signal earlierPass = Inr 1
   \<and> slot earlierPass (Given 2) (At 0) = Some 0
   \<and> fst (Provider exampleContext readHost Undefined earlierPass) = Inr (Some (Default 0))
   \<and> fst (useContext (ctx_context exampleContext)
             (providerScope exampleContext Undefined 1 earlierPass)) = Inr 1
   \<and> fst (useState Undefined (providerScope exampleContext Undefined 1 earlierPass)) = Inr 2
   \<and> currentRenderElement (providerScope exampleContext Undefined 1 earlierPass)
       = Some (Default 0)
   \<and> hostsOK (providerScope exampleContext Undefined 1 earlierPass)
   \<and> Signal (providerScope exampleContext Undefined 1 earlierPass) = Inr 1
   \<and> fst (Provider exampleContext readHost Undefined
            (providerScope exampleContext Undefined 1 earlierPass)) = Inr (Some (Default 1))"
proof -
  let ?m = "(initialState (Some 0) ())\<lparr>manualSignalCtor := Some 1\<rparr> :: (unit, unit) fstate"
  let ?p = "providerScope exampleContext Undefined 1 earlierPass"
  let ?p2 = "providerScope exampleContext Undefined 1 ?p"
  have cur: "currentRenderElement earlierPass = Some (Given 0)"
    by (simp add: earlierPass_def inScope_def)
  have sig: "Signal earlierPass = Inr 1"
    and nh: "nextHost earlierPass = 0" and nc: "nextCell earlierPass = 1"
    and live: "slot earlierPass (Given 2) (At 0) = Some 0"
    by (simp_all add: earlierPass_def withFunctional_def defaultHost_def useState_def
        guard_def newState_def Signal_def alloc_def initialState_def inScope_def slot_def
        Let_def)
  have "hostsOK ?m"
    by (intro hostsOK_ctor hostsOK_initialState)
  with keepsHosts_withFunctional [OF keepsHosts_useStates, of "[Undefined]" "Some 2"]
  have "hostsOK (snd (withFunctional (useStates [Undefined]) (Some 2) ?m))"
    unfolding keepsHosts_def by blast
  then have ok: "hostsOK earlierPass"
    unfolding earlierPass_def by (rule hostsOK_inScope) simp
  note t = Provider_scope_is_on_a_new_host [OF cur ok sig, of exampleContext readHost Undefined
      Undefined "\<lambda>w. (Inr None, w)" "exampleKey None"]
  have child: "readHost ?p = (Inr (Some (Default 0)), ?p)"
    by (simp add: readHost_def providerScope_def nh)
  from t have "Provider exampleContext readHost Undefined earlierPass =
           (case readHost ?p of
              (Inr r, t) \<Rightarrow>
                (Inr r, t\<lparr>microtasks := microtasks t @ [Default (nextHost earlierPass)],
                          currentRenderElement := Some (Given 0)\<rparr>)
            | (Inl e, t) \<Rightarrow> (Inl e, t\<lparr>currentRenderElement := Some (Given 0)\<rparr>))"
    by blast
  then have a: "fst (Provider exampleContext readHost Undefined earlierPass)
      = Inr (Some (Default 0))"
    unfolding child by simp
  from t have "useContext (ctx_context exampleContext) ?p = (Inr (nextCell earlierPass), ?p)"
    by blast
  then have b: "fst (useContext (ctx_context exampleContext) ?p) = Inr 1"
    by (simp add: nc)
  from t have "fst (useState Undefined ?p) = Inr (nextCell earlierPass + 1)"
    by blast
  then have c: "fst (useState Undefined ?p) = Inr 2"
    by (simp add: nc)
  from t have "currentRenderElement ?p = Some (Default (nextHost earlierPass))"
    by blast
  then have cur2: "currentRenderElement ?p = Some (Default 0)"
    by (simp add: nh)
  from t have ok2: "hostsOK ?p"
    by blast
  have "Signal ?p = Signal earlierPass"
    by (rule Signal_same) (simp_all add: providerScope_def)
  then have sig2: "Signal ?p = Inr 1"
    using sig by simp
  note t2 = Provider_scope_is_on_a_new_host [OF cur2 ok2 sig2, of exampleContext readHost
      Undefined Undefined "\<lambda>w. (Inr None, w)" "exampleKey None"]
  have child2: "readHost ?p2 = (Inr (Some (Default 1)), ?p2)"
    by (simp add: readHost_def providerScope_def nh)
  from t2 have "Provider exampleContext readHost Undefined ?p =
           (case readHost ?p2 of
              (Inr r, t) \<Rightarrow>
                (Inr r, t\<lparr>microtasks := microtasks t @ [Default (nextHost ?p)],
                          currentRenderElement := Some (Default 0)\<rparr>)
            | (Inl e, t) \<Rightarrow> (Inl e, t\<lparr>currentRenderElement := Some (Default 0)\<rparr>))"
    by blast
  then have d: "fst (Provider exampleContext readHost Undefined ?p) = Inr (Some (Default 1))"
    unfolding child2 by simp
  from cur ok sig live a b c cur2 ok2 sig2 d show ?thesis
    by (intro conjI)
qed

end
